theory Spec2Isabelle
  imports Main "HOL-Library.Sublist" "HOL-Library.Char_ord" "HOL-Library.List_Lexorder"
    "HOL-Library.AList" "HOL-Library.Multiset"
begin

section \<open>Characters and strings of the Python source\<close>

text \<open>
  A Python \<open>str\<close> is a sequence of Unicode code points. The model covers the code points
  U+0000 to U+00FF: a character is a \<^typ>\<open>char\<close> read as its code point
  (\<open>of_char\<close>), and a string is a \<^typ>\<open>string\<close>. The character classes below are
  Python's classification of exactly these 256 code points.
\<close>

definition LF :: char where "LF = CHR 0x0A"
definition CR :: char where "CR = CHR 0x0D"

text \<open>\<^verbatim>\<open>str.isspace\<close> on one character: TAB to CR, FS to US, SPACE, NEL and NBSP.\<close>

definition isspace :: "char \<Rightarrow> bool" where
  "isspace c = (let n = (of_char c :: nat)
                in (9 \<le> n \<and> n \<le> 13) \<or> (28 \<le> n \<and> n \<le> 32) \<or> n = 133 \<or> n = 160)"

text \<open>The regular-expression class \<^verbatim>\<open>[a-zA-Z]\<close>.\<close>

definition ascii_letter :: "char \<Rightarrow> bool" where
  "ascii_letter c = (let n = (of_char c :: nat)
                     in (65 \<le> n \<and> n \<le> 90) \<or> (97 \<le> n \<and> n \<le> 122))"

text \<open>The class \<^verbatim>\<open>\d\<close> of a \<open>str\<close> pattern (Unicode decimal digits): below U+0100 only 0 to 9.\<close>

definition re_digit :: "char \<Rightarrow> bool" where
  "re_digit c = (let n = (of_char c :: nat) in 48 \<le> n \<and> n \<le> 57)"

text \<open>
  The class \<^verbatim>\<open>\w\<close> of a \<open>str\<close> pattern: the underscore and every alphanumeric
  code point. Below U+0100 these are the ASCII letters and digits, and the Latin-1
  letters and numerics (U+00AA, U+00B2, U+00B3, U+00B5, U+00B9, U+00BA, U+00BC to U+00BE,
  U+00C0 to U+00FF without U+00D7 and U+00F7).
\<close>

definition re_word :: "char \<Rightarrow> bool" where
  "re_word c = (let n = (of_char c :: nat)
                in ascii_letter c \<or> re_digit c \<or> n = 95
                   \<or> n = 170 \<or> n = 178 \<or> n = 179 \<or> n = 181 \<or> n = 185 \<or> n = 186
                   \<or> (188 \<le> n \<and> n \<le> 190)
                   \<or> (192 \<le> n \<and> n \<noteq> 215 \<and> n \<noteq> 247))"

text \<open>\<^verbatim>\<open>str.lower\<close>: A to Z and the Latin-1 capitals U+00C0 to U+00DE (without U+00D7) move
  up by 32; every other code point below U+0100 stays.\<close>

definition lower_char :: "char \<Rightarrow> char" where
  "lower_char c = (let n = (of_char c :: nat)
                   in if (65 \<le> n \<and> n \<le> 90) \<or> (192 \<le> n \<and> n \<le> 222 \<and> n \<noteq> 215)
                      then char_of (n + 32) else c)"

definition lower :: "string \<Rightarrow> string" where
  "lower s = map lower_char s"

text \<open>\<^verbatim>\<open>str.strip()\<close>: whitespace removed at both ends.\<close>

definition strip :: "string \<Rightarrow> string" where
  "strip s = rev (dropWhile isspace (rev (dropWhile isspace s)))"

text \<open>\<^verbatim>\<open>str(n)\<close> of a non-negative integer, and \<^verbatim>\<open>int(s)\<close> of a string of digits.\<close>

definition digit_char :: "nat \<Rightarrow> char" where
  "digit_char d = char_of (48 + d)"

fun str_nat :: "nat \<Rightarrow> string" where
  "str_nat n = (if n < 10 then [digit_char n]
                else str_nat (n div 10) @ [digit_char (n mod 10)])"

declare str_nat.simps [simp del]

definition digit_val :: "char \<Rightarrow> nat" where
  "digit_val c = of_char c - 48"

definition int_of_digits :: "string \<Rightarrow> nat" where
  "int_of_digits s = foldl (\<lambda>acc c. acc * 10 + digit_val c) 0 s"

section \<open>audio-podcast-workflow.py: parsing the script\<close>

text \<open>
  \<^verbatim>\<open>file.readlines()\<close> of a file opened in text mode: universal newlines translate
  CR LF and a lone CR to LF, then the text is cut after every LF, each line keeping its
  terminator.
\<close>

fun translate_newlines :: "string \<Rightarrow> string" where
  "translate_newlines (c # d # cs) =
     (if c = CR \<and> d = LF then LF # translate_newlines cs
      else if c = CR then LF # translate_newlines (d # cs)
      else c # translate_newlines (d # cs))"
| "translate_newlines [c] = (if c = CR then [LF] else [c])"
| "translate_newlines [] = []"

fun split_lines :: "string \<Rightarrow> string \<Rightarrow> string list" where
  "split_lines cur [] = (if cur = [] then [] else [cur])"
| "split_lines cur (c # cs) =
     (if c = LF then (cur @ [c]) # split_lines [] cs else split_lines (cur @ [c]) cs)"

definition readlines :: "string \<Rightarrow> string list" where
  "readlines text = split_lines [] (translate_newlines text)"

text \<open>
  The pattern \<^verbatim>\<open>^\[([^\]]+)\]:\<close> matched at the start of a string: the result is group 1
  and the text left after the match. The class \<^verbatim>\<open>[^\]]+\<close> is greedy and cannot take a
  closing bracket, so the only way to match is to take every character up to the first
  closing bracket.
\<close>

definition tag_match :: "string \<Rightarrow> (string \<times> string) option" where
  "tag_match s =
     (case s of
        [] \<Rightarrow> None
      | c # r \<Rightarrow>
          if c \<noteq> CHR ''['' then None
          else let name = takeWhile (\<lambda>x. x \<noteq> CHR '']'') r;
                   after = dropWhile (\<lambda>x. x \<noteq> CHR '']'') r
               in if name = [] then None
                  else (case after of
                          b # d # t \<Rightarrow> if b = CHR '']'' \<and> d = CHR '':'' then Some (name, t) else None
                        | _ \<Rightarrow> None))"

text \<open>\<^verbatim>\<open>_extract_speaker_names\<close>: the set of names of group 1, sorted.\<close>

definition extract_speaker_names :: "string list \<Rightarrow> string list" where
  "extract_speaker_names lines =
     sort (remdups (map fst (List.map_filter (\<lambda>line. tag_match (strip line)) lines)))"

text \<open>
  \<^verbatim>\<open>_extract_speaker_order\<close>: the pattern is \<^verbatim>\<open>^\[(n1|n2|...)\]:\<close> with the escaped
  speaker names as alternatives, tried from left to right; the first alternative after
  which \<^verbatim>\<open>]:\<close> follows is group 1. Joining an empty list of names gives the empty
  string, so without names the pattern is \<^verbatim>\<open>^\[()\]:\<close>, whose only alternative is the
  empty string.
\<close>

definition alternatives :: "string list \<Rightarrow> string list" where
  "alternatives names = (if names = [] then [[]] else names)"

definition order_match :: "string list \<Rightarrow> string \<Rightarrow> string option" where
  "order_match names s =
     find (\<lambda>alt. prefix (CHR ''['' # alt @ '']:'') s) (alternatives names)"

definition extract_speaker_order :: "string list \<Rightarrow> string list \<Rightarrow> string list" where
  "extract_speaker_order names lines =
     List.map_filter (\<lambda>line. order_match names (strip line)) lines"

text \<open>
  \<^verbatim>\<open>_extract_lines_per_speaker\<close>: the pattern \<^verbatim>\<open>^\[([^\]]+)\]:(.*)\<close>; group 2 runs to
  the first line feed. Appending to the list of a name that is not a key of the
  dictionary raises \<open>KeyError\<close>.
\<close>

datatype error = KeyError | ValueError | FileNotFoundError

definition line_match :: "string \<Rightarrow> (string \<times> string) option" where
  "line_match s = map_option (\<lambda>(name, t). (name, takeWhile (\<lambda>x. x \<noteq> LF) t)) (tag_match s)"

fun lines_loop :: "string list \<Rightarrow> (string \<rightharpoonup> string list) \<Rightarrow> error + (string \<rightharpoonup> string list)" where
  "lines_loop [] speaker_lines = Inr speaker_lines"
| "lines_loop (line # rest) speaker_lines =
     (case line_match (strip line) of
        None \<Rightarrow> lines_loop rest speaker_lines
      | Some (name, spoken_line) \<Rightarrow>
          (case speaker_lines name of
             None \<Rightarrow> Inl KeyError
           | Some xs \<Rightarrow> lines_loop rest (speaker_lines(name \<mapsto> xs @ [strip spoken_line]))))"

definition extract_lines_per_speaker ::
  "string list \<Rightarrow> string list \<Rightarrow> error + (string \<rightharpoonup> string list)" where
  "extract_lines_per_speaker names lines =
     lines_loop lines (\<lambda>name. if name \<in> set names then Some [] else None)"

section \<open>audio-podcast-workflow.py: the processor\<close>

record processor =
  lines :: "string list"
  speaker_names :: "string list"
  speaker_orders :: "string list"
  lines_per_speaker :: "string \<rightharpoonup> string list"
  voice_map :: "string \<rightharpoonup> string"

text \<open>The four parsing passes of \<^verbatim>\<open>__init__\<close> over the lines read from the script.\<close>

definition build_processor :: "string list \<Rightarrow> (string \<rightharpoonup> string) \<Rightarrow> error + processor" where
  "build_processor ls vm =
     (let names = extract_speaker_names ls;
          orders = extract_speaker_order names ls
      in case extract_lines_per_speaker names ls of
           Inl e \<Rightarrow> Inl e
         | Inr per_speaker \<Rightarrow>
             Inr \<lparr> lines = ls, speaker_names = names, speaker_orders = orders,
                   lines_per_speaker = per_speaker, voice_map = vm \<rparr>)"

text \<open>
  \<^verbatim>\<open>__init__\<close>: \<open>script_file\<close> is the decoded text of the file at \<open>script_path\<close>
  (\<open>None\<close> when there is no such file), \<open>env_key\<close> the value of the environment
  variable \<open>GROQ_API_KEY\<close>.
\<close>

definition processor_init ::
  "string option \<Rightarrow> (string \<rightharpoonup> string) option \<Rightarrow> string option \<Rightarrow> string option
     \<Rightarrow> error + processor" where
  "processor_init script_file voice_map_arg api_key env_key =
     (let vm = (case voice_map_arg of None \<Rightarrow> Map.empty | Some m \<Rightarrow> m);
          key = (case api_key of None \<Rightarrow> env_key | Some k \<Rightarrow> Some k)
      in if key = None \<or> key = Some [] then Inl ValueError
         else (case script_file of
                 None \<Rightarrow> Inl FileNotFoundError
               | Some text \<Rightarrow> build_processor (readlines text) vm))"

section \<open>audio-podcast-workflow.py: synthesis\<close>

text \<open>\<^verbatim>\<open>_sanitize_filename\<close>: \<^verbatim>\<open>re.sub(r'[^\w\-_.]', '_', name)\<close>.\<close>

definition sanitize_filename :: "string \<Rightarrow> string" where
  "sanitize_filename name =
     map (\<lambda>c. if re_word c \<or> c = CHR ''-'' \<or> c = CHR ''_'' \<or> c = CHR ''.'' then c
               else CHR ''_'') name"

text \<open>The f-string \<^verbatim>\<open>f"{line_number}_{speaker.lower()}.wav"\<close>.\<close>

definition clip_name :: "nat \<Rightarrow> string \<Rightarrow> string" where
  "clip_name line_number speaker = str_nat line_number @ ''_'' @ lower speaker @ ''.wav''"

datatype log_entry =
    Info_starting
  | Warning_no_voice nat string
  | Warning_out_of_bounds string nat
  | Info_generating string
  | Exception_generating nat string

text \<open>
  The state of a run of \<^verbatim>\<open>generate_audio\<close>: the cursors, the files written into the
  output directory (name and content, in the order of writing) and the log.
\<close>

record 'a gen_state =
  index_tracker :: "string \<rightharpoonup> nat"
  files :: "(string \<times> 'a) list"
  log :: "log_entry list"

text \<open>
  The text-to-speech provider is outside the repository. \<open>prov text filename voice\<close> is
  the outcome of the provider call and the write made by
  \<^verbatim>\<open>_generate_single_audio(text, filename, voice)\<close>: \<open>Some audio\<close> when \<open>audio\<close> is
  written to the file, \<open>None\<close> when an exception is raised.
\<close>

type_synonym 'a provider = "string \<Rightarrow> string \<Rightarrow> string \<Rightarrow> 'a option"

text \<open>\<^verbatim>\<open>_generate_single_audio\<close>; the second component tells whether it raised.\<close>

definition generate_single_audio ::
  "'a provider \<Rightarrow> string \<Rightarrow> string \<Rightarrow> string \<Rightarrow> 'a gen_state \<Rightarrow> 'a gen_state \<times> bool" where
  "generate_single_audio prov text filename voice st =
     (let st1 = st\<lparr>log := log st @ [Info_generating filename]\<rparr>
      in case prov text filename voice of
           None \<Rightarrow> (st1, True)
         | Some audio \<Rightarrow> (st1\<lparr>files := files st1 @ [(filename, audio)]\<rparr>, False))"

text \<open>
  The body of the loop of \<^verbatim>\<open>generate_audio\<close> for one entry of \<open>speaker_orders\<close>.
  The statement \<^verbatim>\<open>index_tracker[speaker] += 1\<close> raises \<open>KeyError\<close> when the speaker is
  not a key of the tracker, and that exception leaves \<^verbatim>\<open>generate_audio\<close>.
\<close>

definition generate_step ::
  "'a provider \<Rightarrow> processor \<Rightarrow> nat \<Rightarrow> string \<Rightarrow> 'a gen_state \<Rightarrow> error + 'a gen_state" where
  "generate_step prov P line_number speaker st =
     (let skip = Inr (st\<lparr>log := log st @ [Warning_no_voice line_number speaker]\<rparr>)
      in case voice_map P speaker of
           None \<Rightarrow> skip
         | Some voice \<Rightarrow>
             if voice = [] then skip
             else
               let speaker_lines = (case lines_per_speaker P speaker of None \<Rightarrow> [] | Some xs \<Rightarrow> xs);
                   speaker_index = (case index_tracker st speaker of None \<Rightarrow> 0 | Some i \<Rightarrow> i)
               in if speaker_index \<ge> length speaker_lines
                  then Inr (st\<lparr>log := log st @ [Warning_out_of_bounds speaker line_number]\<rparr>)
                  else
                    let text = speaker_lines ! speaker_index
                    in case index_tracker st speaker of
                         None \<Rightarrow> Inl KeyError
                       | Some i \<Rightarrow>
                           let st1 = st\<lparr>index_tracker := (index_tracker st)(speaker \<mapsto> i + 1)\<rparr>;
                               filename = sanitize_filename (clip_name line_number speaker);
                               (st2, raised) = generate_single_audio prov text filename voice st1
                           in if raised
                              then Inr (st2\<lparr>log := log st2 @ [Exception_generating line_number speaker]\<rparr>)
                              else Inr st2)"

fun generate_loop ::
  "'a provider \<Rightarrow> processor \<Rightarrow> nat \<Rightarrow> string list \<Rightarrow> 'a gen_state \<Rightarrow> error + 'a gen_state" where
  "generate_loop prov P line_number [] st = Inr st"
| "generate_loop prov P line_number (speaker # rest) st =
     (case generate_step prov P line_number speaker st of
        Inl e \<Rightarrow> Inl e
      | Inr st' \<Rightarrow> generate_loop prov P (Suc line_number) rest st')"

definition initial_state :: "processor \<Rightarrow> 'a gen_state" where
  "initial_state P =
     \<lparr> index_tracker = (\<lambda>speaker. if speaker \<in> set (speaker_names P) then Some 0 else None),
       files = [], log = [Info_starting] \<rparr>"

definition generate_audio :: "'a provider \<Rightarrow> processor \<Rightarrow> error + 'a gen_state" where
  "generate_audio prov P = generate_loop prov P 1 (speaker_orders P) (initial_state P)"

text \<open>
  The run that \<^verbatim>\<open>main\<close> makes once the script file is read: the parsing passes of
  \<^verbatim>\<open>__init__\<close> on the lines of the script text, then \<^verbatim>\<open>generate_audio\<close>.
\<close>

definition run_script ::
  "'a provider \<Rightarrow> string \<Rightarrow> (string \<rightharpoonup> string) \<Rightarrow> error + 'a gen_state" where
  "run_script prov script vm =
     (case build_processor (readlines script) vm of
        Inl e \<Rightarrow> Inl e
      | Inr P \<Rightarrow> generate_audio prov P)"

section \<open>cutting-podcast-workflow.py: assembly\<close>

text \<open>
  \<^verbatim>\<open>self.pattern.match(filename)\<close> with the pattern \<^verbatim>\<open>(\d+)_([a-zA-Z]+)\.wav\<close>:
  \<open>match\<close> anchors the pattern at the start of the name only. Both repetitions are
  greedy and the character after each is outside its class, so each takes the longest
  run. The result is the pair of groups.
\<close>

definition pattern_match :: "string \<Rightarrow> (string \<times> string) option" where
  "pattern_match filename =
     (let ds = takeWhile re_digit filename; r1 = dropWhile re_digit filename
      in if ds = [] then None
         else (case r1 of
                 [] \<Rightarrow> None
               | u # r2 \<Rightarrow>
                   if u \<noteq> CHR ''_'' then None
                   else let sp = takeWhile ascii_letter r2; r3 = dropWhile ascii_letter r2
                        in if sp = [] then None
                           else if prefix ''.wav'' r3 then Some (ds, sp) else None))"

text \<open>\<^verbatim>\<open>os.path.join(audio_dir, filename)\<close> on a POSIX system.\<close>

definition path_join :: "string \<Rightarrow> string \<Rightarrow> string" where
  "path_join a b =
     (if prefix ''/'' b then b
      else if a = [] \<or> suffix ''/'' a then a @ b
      else a @ ''/'' @ b)"

datatype message =
    Info_loading string
  | Info_loaded string
  | Warning_could_not_load string
  | Info_concatenating
  | Debug_added nat string
  | Success_exported string

text \<open>
  Decoded audio is a list of samples: \<^verbatim>\<open>AudioSegment.empty()\<close> is the empty list and
  \<open>+\<close> appends. \<open>audio_groups\<close> is a dictionary of dictionaries; both keep the order in
  which keys were first inserted, so they are association lists updated in place.
\<close>

type_synonym 's groups = "(nat \<times> (string \<times> 's list) list) list"

record 's concatenator =
  audio_dir :: string
  audio_groups :: "'s groups"
  printed :: "message list"

definition concatenator_init :: "string \<Rightarrow> 's concatenator" where
  "concatenator_init dir = \<lparr> audio_dir = dir, audio_groups = [], printed = [] \<rparr>"

text \<open>\<^verbatim>\<open>self.audio_groups[index][speaker] = audio\<close> on a \<open>defaultdict(dict)\<close>.\<close>

definition groups_store :: "nat \<Rightarrow> string \<Rightarrow> 's list \<Rightarrow> 's groups \<Rightarrow> 's groups" where
  "groups_store index speaker audio g =
     AList.update index
       (AList.update speaker audio (case map_of g index of None \<Rightarrow> [] | Some d \<Rightarrow> d)) g"

text \<open>
  Lines 19 to 21 of \<^verbatim>\<open>load_audio_files\<close>: the key \<^verbatim>\<open>(int(match.group(1)),
  match.group(2).lower())\<close> of a file name that matches.
\<close>

definition clip_key :: "string \<Rightarrow> (nat \<times> string) option" where
  "clip_key filename =
     map_option (\<lambda>(g1, g2). (int_of_digits g1, lower g2)) (pattern_match filename)"

text \<open>
  The body of the loop of \<^verbatim>\<open>load_audio_files\<close>. \<open>from_wav path\<close> is the outcome of
  \<^verbatim>\<open>AudioSegment.from_wav(path)\<close>: \<open>None\<close> when it raises.
\<close>

definition load_step ::
  "(string \<Rightarrow> 's list option) \<Rightarrow> string \<Rightarrow> 's concatenator \<Rightarrow> 's concatenator" where
  "load_step from_wav filename C =
     (case clip_key filename of
        None \<Rightarrow> C
      | Some (index, speaker) \<Rightarrow>
          (case from_wav (path_join (audio_dir C) filename) of
             Some audio \<Rightarrow>
               C\<lparr>audio_groups := groups_store index speaker audio (audio_groups C),
                 printed := printed C @ [Info_loaded filename]\<rparr>
           | None \<Rightarrow> C\<lparr>printed := printed C @ [Warning_could_not_load filename]\<rparr>))"

text \<open>\<^verbatim>\<open>load_audio_files\<close>; \<open>listing\<close> is what \<^verbatim>\<open>os.listdir(self.audio_dir)\<close> returns.\<close>

definition load_audio_files ::
  "(string \<Rightarrow> 's list option) \<Rightarrow> string list \<Rightarrow> 's concatenator \<Rightarrow> 's concatenator" where
  "load_audio_files from_wav listing C =
     foldl (\<lambda>C' filename. load_step from_wav filename C')
       (C\<lparr>printed := printed C @ [Info_loading (audio_dir C)]\<rparr>) (sort listing)"

text \<open>\<^verbatim>\<open>concatenate_audio\<close>: the groups in ascending order of their index, each in the
  order of its dictionary.\<close>

definition group_of :: "'s groups \<Rightarrow> nat \<Rightarrow> (string \<times> 's list) list" where
  "group_of g index = (case map_of g index of None \<Rightarrow> [] | Some d \<Rightarrow> d)"

definition concatenate_audio :: "'s concatenator \<Rightarrow> 's list \<times> 's concatenator" where
  "concatenate_audio C =
     (let keys = sort (map fst (audio_groups C));
          items = concat (map (\<lambda>index. map (\<lambda>(speaker, audio). (index, speaker, audio))
                                          (group_of (audio_groups C) index)) keys)
      in (concat (map (\<lambda>(index, speaker, audio). audio) items),
          C\<lparr>printed := printed C @ Info_concatenating
                          # map (\<lambda>(index, speaker, audio). Debug_added index speaker) items\<rparr>))"

text \<open>\<^verbatim>\<open>export_final_audio\<close>: the result is the path written, the track written to it and
  the final state.\<close>

definition export_final_audio ::
  "(string \<Rightarrow> 's list option) \<Rightarrow> string list \<Rightarrow> string \<Rightarrow> 's concatenator
     \<Rightarrow> string \<times> 's list \<times> 's concatenator" where
  "export_final_audio from_wav listing output_filename C =
     (let (combined_audio, C2) = concatenate_audio (load_audio_files from_wav listing C);
          output_path = path_join (audio_dir C2) output_filename
      in (output_path, combined_audio, C2\<lparr>printed := printed C2 @ [Success_exported output_path]\<rparr>))"

section \<open>Notions used to state the properties\<close>

text \<open>The tagged lines of a script, in script order: speaker name and spoken text.\<close>

definition tagged_lines :: "string list \<Rightarrow> (string \<times> string) list" where
  "tagged_lines ls =
     List.map_filter (\<lambda>line. map_option (\<lambda>(name, spoken). (name, strip spoken))
                                (line_match (strip line))) ls"

text \<open>The texts of one speaker among tagged lines, in order.\<close>

definition texts_of :: "(string \<times> string) list \<Rightarrow> string \<Rightarrow> string list" where
  "texts_of tls s = map snd (filter (\<lambda>p. fst p = s) tls)"

text \<open>A speaker has a voice when the voice map gives a value that is not falsy.\<close>

definition voiced :: "(string \<rightharpoonup> string) \<Rightarrow> string \<Rightarrow> bool" where
  "voiced vm s = (case vm s of None \<Rightarrow> False | Some v \<Rightarrow> v \<noteq> [])"

text \<open>What one tagged line, with its line number, adds to the files and to the log.\<close>

definition line_files ::
  "'a provider \<Rightarrow> (string \<rightharpoonup> string) \<Rightarrow> nat \<times> string \<times> string \<Rightarrow> (string \<times> 'a) list" where
  "line_files prov vm = (\<lambda>(n, s, spoken).
     case vm s of
       None \<Rightarrow> []
     | Some v \<Rightarrow>
         if v = [] then []
         else (case prov spoken (sanitize_filename (clip_name n s)) v of
                 None \<Rightarrow> []
               | Some a \<Rightarrow> [(sanitize_filename (clip_name n s), a)]))"

definition line_log ::
  "'a provider \<Rightarrow> (string \<rightharpoonup> string) \<Rightarrow> nat \<times> string \<times> string \<Rightarrow> log_entry list" where
  "line_log prov vm = (\<lambda>(n, s, spoken).
     case vm s of
       None \<Rightarrow> [Warning_no_voice n s]
     | Some v \<Rightarrow>
         if v = [] then [Warning_no_voice n s]
         else Info_generating (sanitize_filename (clip_name n s))
              # (case prov spoken (sanitize_filename (clip_name n s)) v of
                   None \<Rightarrow> [Exception_generating n s]
                 | Some a \<Rightarrow> []))"

text \<open>The log entries that warn of a missing voice.\<close>

definition is_no_voice :: "log_entry \<Rightarrow> bool" where
  "is_no_voice e = (case e of Warning_no_voice n s \<Rightarrow> True | _ \<Rightarrow> False)"

text \<open>The character set \<^verbatim>\<open>[A-Za-z0-9_.-]\<close> that the specification names for file names.\<close>

definition spec_safe_char :: "char \<Rightarrow> bool" where
  "spec_safe_char c =
     (ascii_letter c \<or> re_digit c \<or> c = CHR ''_'' \<or> c = CHR ''.'' \<or> c = CHR ''-'')"

text \<open>What \<^verbatim>\<open>_sanitize_filename\<close> does to one character.\<close>

definition sanitize_char :: "char \<Rightarrow> char" where
  "sanitize_char c = (if re_word c \<or> c = CHR ''-'' \<or> c = CHR ''_'' \<or> c = CHR ''.'' then c
               else CHR ''_'')"

subsection \<open>Assembly\<close>

text \<open>The key and the decoded audio that a file of the directory contributes, if any.\<close>

definition clip_of :: "(string \<Rightarrow> 's list option) \<Rightarrow> string \<Rightarrow> string \<Rightarrow> ((nat \<times> string) \<times> 's list) option" where
  "clip_of from_wav dir filename =
     (case clip_key filename of
        None \<Rightarrow> None
      | Some k \<Rightarrow> map_option (Pair k) (from_wav (path_join dir filename)))"

text \<open>The clips that a list of file names contributes, in the order of the list.\<close>

definition loaded_clips ::
  "(string \<Rightarrow> 's list option) \<Rightarrow> string \<Rightarrow> string list \<Rightarrow> ((nat \<times> string) \<times> 's list) list" where
  "loaded_clips from_wav dir names = List.map_filter (clip_of from_wav dir) names"

text \<open>The line that \<^verbatim>\<open>load_audio_files\<close> prints for a file name, if any.\<close>

definition load_message :: "(string \<Rightarrow> 's list option) \<Rightarrow> string \<Rightarrow> string \<Rightarrow> message option" where
  "load_message from_wav dir filename =
     (case clip_key filename of
        None \<Rightarrow> None
      | Some k \<Rightarrow> (case from_wav (path_join dir filename) of
                    Some audio \<Rightarrow> Some (Info_loaded filename)
                  | None \<Rightarrow> Some (Warning_could_not_load filename)))"

text \<open>Storing one clip under its key.\<close>

definition store_clip :: "'s groups \<Rightarrow> (nat \<times> string) \<times> 's list \<Rightarrow> 's groups" where
  "store_clip g = (\<lambda>((index, speaker), audio). groups_store index speaker audio g)"

text \<open>The clip stored under a key \<open>(index, speaker)\<close>.\<close>

definition stored :: "'s groups \<Rightarrow> nat \<times> string \<Rightarrow> 's list option" where
  "stored g = (\<lambda>(index, speaker). map_of (group_of g index) speaker)"

text \<open>The test \<^verbatim>\<open>if match:\<close> of \<^verbatim>\<open>load_audio_files\<close>.\<close>

definition matches :: "string \<Rightarrow> bool" where
  "matches filename = (pattern_match filename \<noteq> None)"

text \<open>The pattern of the specification, \<^verbatim>\<open>^(\d+)_([A-Za-z]+)\.wav$\<close>, anchored at both ends:
  the match of the source pattern has to cover the whole name.\<close>

definition anchored_match :: "string \<Rightarrow> bool" where
  "anchored_match filename =
     (case pattern_match filename of
        None \<Rightarrow> False
      | Some (g1, g2) \<Rightarrow> filename = g1 @ ''_'' @ g2 @ ''.wav'')"

text \<open>No index occurs twice in the groups, and no speaker twice in a group.\<close>

definition groups_ok :: "'s groups \<Rightarrow> bool" where
  "groups_ok g = (distinct (map fst g) \<and> (\<forall>p \<in> set g. distinct (map fst (snd p))))"

text \<open>The index of a clip, and its entry in the group of that index.\<close>

definition clip_index :: "(nat \<times> string) \<times> 's list \<Rightarrow> nat" where
  "clip_index c = fst (fst c)"

definition clip_entry :: "(nat \<times> string) \<times> 's list \<Rightarrow> string \<times> 's list" where
  "clip_entry c = (snd (fst c), snd c)"

text \<open>A file name that the synthesis driver writes for a speaker whose name is made of
  ASCII letters: \<^verbatim>\<open>{n}_{lower s}.wav\<close>.\<close>

definition driver_name :: "string \<Rightarrow> bool" where
  "driver_name f = (\<exists>n s. s \<noteq> [] \<and> (\<forall>c \<in> set s. ascii_letter c) \<and> f = clip_name n s)"

text \<open>A decoder for the examples: it fails for one path and returns the path otherwise.\<close>

definition decode_except :: "string \<Rightarrow> string \<Rightarrow> string option" where
  "decode_except bad path = (if path = bad then None else Some path)"

subsection \<open>Providers used in the examples\<close>

text \<open>A provider that returns the voice and the text as its audio, one that fails for
  one file name only, and one that always fails.\<close>

definition always_ok :: "(string \<times> string) provider" where
  "always_ok t f v = Some (v, t)"

definition fails_on :: "string \<Rightarrow> (string \<times> string) provider" where
  "fails_on name t f v = (if f = name then None else Some (v, t))"

definition always_fails :: "(string \<times> string) provider" where
  "always_fails t f v = None"

section \<open>Parsing: the three passes agree\<close>

lemma tag_match_iff:
  "tag_match s = Some (name, t) \<longleftrightarrow>
     name \<noteq> [] \<and> CHR '']'' \<notin> set name \<and> s = CHR ''['' # name @ '']:'' @ t"
proof
  assume m: "tag_match s = Some (name, t)"
  let ?P = "\<lambda>x. x \<noteq> CHR '']''"
  from m obtain r where s: "s = CHR ''['' # r"
    by (auto simp: tag_match_def split: list.splits if_splits)
  from m s have n: "name = takeWhile ?P r" and ne: "name \<noteq> []"
    and d: "dropWhile ?P r = CHR '']'' # CHR '':'' # t"
    by (auto simp: tag_match_def Let_def split: list.splits if_splits)
  have "r = takeWhile ?P r @ dropWhile ?P r" by simp
  with n d have "r = name @ '']:'' @ t" by simp
  moreover have "CHR '']'' \<notin> set name" using n by (auto dest: set_takeWhileD)
  ultimately show "name \<noteq> [] \<and> CHR '']'' \<notin> set name \<and> s = CHR ''['' # name @ '']:'' @ t"
    using ne s by simp
next
  assume a: "name \<noteq> [] \<and> CHR '']'' \<notin> set name \<and> s = CHR ''['' # name @ '']:'' @ t"
  let ?P = "\<lambda>x. x \<noteq> CHR '']''"
  from a have all: "\<And>x. x \<in> set name \<Longrightarrow> ?P x" by auto
  have tw: "takeWhile ?P (name @ '']:'' @ t) = name"
    using all by (simp add: takeWhile_append2)
  have dw: "dropWhile ?P (name @ '']:'' @ t) = '']:'' @ t"
    using all by (simp add: dropWhile_append2)
  from a show "tag_match s = Some (name, t)"
    unfolding tag_match_def using tw dw by simp
qed

lemma find_eq_Some_key:
  "find (\<lambda>x. y = Some x) xs = (case y of None \<Rightarrow> None | Some v \<Rightarrow> if v \<in> set xs then Some v else None)"
  by (induction xs) (auto split: option.splits)

lemma prefix_tag_iff:
  assumes "alt \<noteq> []" "CHR '']'' \<notin> set alt"
  shows "prefix (CHR ''['' # alt @ '']:'') s \<longleftrightarrow> map_option fst (tag_match s) = Some alt"
proof -
  have "prefix (CHR ''['' # alt @ '']:'') s \<longleftrightarrow> (\<exists>t. s = CHR ''['' # alt @ '']:'' @ t)"
    by (auto simp: prefix_def)
  also have "\<dots> \<longleftrightarrow> (\<exists>t. tag_match s = Some (alt, t))"
    using assms by (simp add: tag_match_iff)
  also have "\<dots> \<longleftrightarrow> map_option fst (tag_match s) = Some alt"
    by (cases "tag_match s") auto
  finally show ?thesis .
qed

lemma order_match_names:
  assumes "names \<noteq> []" "\<forall>alt \<in> set names. alt \<noteq> [] \<and> CHR '']'' \<notin> set alt"
  shows "order_match names s =
           (case tag_match s of None \<Rightarrow> None
            | Some (name, t) \<Rightarrow> if name \<in> set names then Some name else None)"
proof -
  let ?y = "map_option fst (tag_match s)"
  have "find (\<lambda>alt. prefix (CHR ''['' # alt @ '']:'') s) names = find (\<lambda>alt. ?y = Some alt) names"
  proof (rule find_cong [OF refl])
    fix alt assume "alt \<in> set names"
    with assms(2) have "alt \<noteq> []" "CHR '']'' \<notin> set alt" by auto
    then show "prefix (CHR ''['' # alt @ '']:'') s \<longleftrightarrow> ?y = Some alt"
      by (rule prefix_tag_iff)
  qed
  also have "\<dots> = (case ?y of None \<Rightarrow> None | Some v \<Rightarrow> if v \<in> set names then Some v else None)"
    by (rule find_eq_Some_key)
  finally have "order_match names s
      = (case ?y of None \<Rightarrow> None | Some v \<Rightarrow> if v \<in> set names then Some v else None)"
    using assms(1) by (simp only: order_match_def alternatives_def if_False)
  then show ?thesis
    by (cases "tag_match s") auto
qed

lemma tagged_lines_Nil [simp]: "tagged_lines [] = []"
  by (simp add: tagged_lines_def)

lemma tagged_lines_Cons:
  "tagged_lines (line # rest) =
     (case tag_match (strip line) of
        None \<Rightarrow> tagged_lines rest
      | Some (name, t) \<Rightarrow> (name, strip (takeWhile (\<lambda>x. x \<noteq> LF) t)) # tagged_lines rest)"
  by (simp add: tagged_lines_def line_match_def split: option.splits)

lemma names_tagged_lines:
  "map fst (List.map_filter (\<lambda>line. tag_match (strip line)) ls) = map fst (tagged_lines ls)"
  by (induction ls) (auto simp: tagged_lines_Cons split: option.splits)

lemma extract_speaker_names_eq:
  "extract_speaker_names ls = sort (remdups (map fst (tagged_lines ls)))"
  by (simp add: extract_speaker_names_def names_tagged_lines)

lemma set_extract_speaker_names:
  "set (extract_speaker_names ls) = fst ` set (tagged_lines ls)"
  by (simp add: extract_speaker_names_eq)

lemma tagged_name_ok:
  "(name, text) \<in> set (tagged_lines ls) \<Longrightarrow> name \<noteq> [] \<and> CHR '']'' \<notin> set name"
  by (induction ls) (auto simp: tagged_lines_Cons tag_match_iff split: option.splits)

lemma extract_speaker_order_eq:
  assumes "fst ` set (tagged_lines ls) \<subseteq> set names" "names \<noteq> []"
    "\<forall>alt \<in> set names. alt \<noteq> [] \<and> CHR '']'' \<notin> set alt"
  shows "extract_speaker_order names ls = map fst (tagged_lines ls)"
  using assms(1)
proof (induction ls)
  case Nil
  show ?case by (simp add: extract_speaker_order_def)
next
  case (Cons line rest)
  from Cons.prems have sub: "fst ` set (tagged_lines rest) \<subseteq> set names"
    by (auto simp: tagged_lines_Cons split: option.splits)
  have ih: "extract_speaker_order names rest = map fst (tagged_lines rest)"
    using Cons.IH sub by simp
  show ?case
  proof (cases "tag_match (strip line)")
    case None
    then show ?thesis
      using ih by (simp add: extract_speaker_order_def order_match_names [OF assms(2,3)] tagged_lines_Cons)
  next
    case (Some p)
    obtain name t where p: "p = (name, t)" by (cases p)
    with Some Cons.prems have "name \<in> set names"
      by (auto simp: tagged_lines_Cons)
    with Some p show ?thesis
      using ih by (simp add: extract_speaker_order_def order_match_names [OF assms(2,3)] tagged_lines_Cons)
  qed
qed

lemma lines_loop_eq:
  assumes "fst ` set (tagged_lines ls) \<subseteq> dom sl"
  shows "lines_loop ls sl =
           Inr (\<lambda>s. map_option (\<lambda>xs. xs @ texts_of (tagged_lines ls) s) (sl s))"
  using assms
proof (induction ls arbitrary: sl)
  case Nil
  have "(\<lambda>s. map_option (\<lambda>xs. xs) (sl s)) = sl"
    by (rule ext) (simp add: option.map_ident)
  then show ?case by (simp add: texts_of_def)
next
  case (Cons line rest)
  show ?case
  proof (cases "tag_match (strip line)")
    case None
    with Cons show ?thesis by (simp add: line_match_def tagged_lines_Cons)
  next
    case (Some p)
    obtain name t where p: "p = (name, t)" by (cases p)
    let ?text = "strip (takeWhile (\<lambda>x. x \<noteq> LF) t)"
    from Some p Cons.prems obtain xs where xs: "sl name = Some xs"
      by (auto simp: tagged_lines_Cons)
    from Some p Cons.prems have sub: "fst ` set (tagged_lines rest) \<subseteq> dom (sl(name \<mapsto> xs @ [?text]))"
      by (auto simp: tagged_lines_Cons)
    have "lines_loop (line # rest) sl = lines_loop rest (sl(name \<mapsto> xs @ [?text]))"
      using Some p xs by (simp add: line_match_def)
    also have "\<dots> = Inr (\<lambda>s. map_option (\<lambda>ys. ys @ texts_of (tagged_lines rest) s)
                                  ((sl(name \<mapsto> xs @ [?text])) s))"
      by (rule Cons.IH [OF sub])
    also have "(\<lambda>s. map_option (\<lambda>ys. ys @ texts_of (tagged_lines rest) s)
                                  ((sl(name \<mapsto> xs @ [?text])) s))
               = (\<lambda>s. map_option (\<lambda>xs. xs @ texts_of (tagged_lines (line # rest)) s) (sl s))"
      using Some p xs by (auto simp: tagged_lines_Cons texts_of_def fun_eq_iff)
    finally show ?thesis .
  qed
qed

lemma extract_lines_per_speaker_eq:
  "extract_lines_per_speaker (extract_speaker_names ls) ls =
     Inr (\<lambda>s. if s \<in> fst ` set (tagged_lines ls) then Some (texts_of (tagged_lines ls) s) else None)"
proof -
  let ?sl = "\<lambda>name. if name \<in> set (extract_speaker_names ls) then Some [] else None"
  have "fst ` set (tagged_lines ls) \<subseteq> dom ?sl"
    by (auto simp: set_extract_speaker_names dom_def)
  from lines_loop_eq [OF this] show ?thesis
    by (simp add: extract_lines_per_speaker_def set_extract_speaker_names fun_eq_iff)
qed

section \<open>Synthesis of a parsed script\<close>

lemma generate_step_unvoiced:
  "\<not> voiced (voice_map P) s \<Longrightarrow>
     generate_step prov P n s st = Inr (st\<lparr>log := log st @ [Warning_no_voice n s]\<rparr>)"
  by (simp add: generate_step_def voiced_def split: option.splits)

lemma generate_step_voiced:
  assumes "voiced (voice_map P) s" "lines_per_speaker P s = Some xs"
    "index_tracker st s = Some k" "k < length xs"
  shows "generate_step prov P n s st =
     Inr (st\<lparr>index_tracker := (index_tracker st)(s \<mapsto> Suc k),
             files := files st @ line_files prov (voice_map P) (n, s, xs ! k),
             log := log st @ line_log prov (voice_map P) (n, s, xs ! k)\<rparr>)"
  using assms
  by (auto simp: generate_step_def voiced_def generate_single_audio_def line_files_def
      line_log_def Let_def split: option.splits)

lemma line_unvoiced:
  "\<not> voiced vm s \<Longrightarrow> line_files prov vm (n, s, text) = [] \<and>
     line_log prov vm (n, s, text) = [Warning_no_voice n s]"
  by (simp add: voiced_def line_files_def line_log_def split: option.splits)

lemma texts_of_append: "texts_of (xs @ ys) s = texts_of xs s @ texts_of ys s"
  by (simp add: texts_of_def)

lemma texts_of_notin: "s \<notin> fst ` set xs \<Longrightarrow> texts_of xs s = []"
  by (induction xs) (auto simp: texts_of_def)

lemma generate_loop_tagged:
  fixes st :: "'a gen_state"
  assumes lps: "\<forall>s \<in> fst ` set tls. lines_per_speaker P s = Some (texts_of tls s)"
    and tls_eq: "tls = pre @ rest"
    and inv: "\<forall>s \<in> fst ` set rest. voiced (voice_map P) s \<longrightarrow>
                index_tracker st s = Some (length (texts_of pre s))"
  shows "generate_loop prov P (Suc (length pre)) (map fst rest) st =
     Inr (st\<lparr>index_tracker := (\<lambda>s. if voiced (voice_map P) s \<and> s \<in> fst ` set rest
                                    then Some (length (texts_of tls s)) else index_tracker st s),
             files := files st @ concat (map (line_files prov (voice_map P))
                                          (List.enumerate (Suc (length pre)) rest)),
             log := log st @ concat (map (line_log prov (voice_map P))
                                      (List.enumerate (Suc (length pre)) rest))\<rparr>)"
  using tls_eq inv
proof (induction rest arbitrary: pre st)
  case Nil
  show ?case by simp
next
  case (Cons p rest)
  obtain s spoken where p: "p = (s, spoken)" by (cases p)
  let ?vm = "voice_map P"
  let ?n = "Suc (length pre)"
  let ?pre' = "pre @ [p]"
  have split': "tls = ?pre' @ rest" using Cons.prems(1) by simp
  have len': "Suc (length ?pre') = Suc ?n" by simp
  show ?case
  proof (cases "voiced ?vm s")
    case False
    let ?st' = "st\<lparr>log := log st @ [Warning_no_voice ?n s]\<rparr>"
    have inv': "\<forall>x \<in> fst ` set rest. voiced ?vm x \<longrightarrow>
                  index_tracker ?st' x = Some (length (texts_of ?pre' x))"
    proof (intro ballI impI)
      fix x assume x: "x \<in> fst ` set rest" and v: "voiced ?vm x"
      with False have "x \<noteq> s" by auto
      moreover from x v Cons.prems(2) have "index_tracker st x = Some (length (texts_of pre x))"
        by auto
      ultimately show "index_tracker ?st' x = Some (length (texts_of ?pre' x))"
        using p by (simp add: texts_of_def)
    qed
    have "generate_loop prov P ?n (map fst (p # rest)) st
            = generate_loop prov P (Suc (length ?pre')) (map fst rest) ?st'"
      using False p by (simp add: generate_step_unvoiced)
    also note Cons.IH [OF split' inv']
    finally have eq: "generate_loop prov P ?n (map fst (p # rest)) st = Inr (?st'\<lparr>index_tracker := (\<lambda>s. if voiced (voice_map P) s \<and> s \<in> fst ` set rest
                                    then Some (length (texts_of tls s)) else index_tracker ?st' s),
             files := files ?st' @ concat (map (line_files prov (voice_map P))
                                          (List.enumerate (Suc (length ?pre')) rest)),
             log := log ?st' @ concat (map (line_log prov (voice_map P))
                                      (List.enumerate (Suc (length ?pre')) rest))\<rparr>)" .
    show ?thesis
      unfolding eq using False p
      by (auto intro!: gen_state.equality simp: line_unvoiced fun_eq_iff)
  next
    case True
    let ?k = "length (texts_of pre s)"
    have xs: "lines_per_speaker P s = Some (texts_of tls s)"
      using lps Cons.prems(1) p by auto
    have tx: "texts_of tls s = texts_of pre s @ spoken # texts_of rest s"
      using Cons.prems(1) p by (simp add: texts_of_def)
    have k: "index_tracker st s = Some ?k"
      using Cons.prems(2) True p by auto
    have klt: "?k < length (texts_of tls s)" and nth: "texts_of tls s ! ?k = spoken"
      using tx by simp_all
    let ?st' = "st\<lparr>index_tracker := (index_tracker st)(s \<mapsto> Suc ?k),
                   files := files st @ line_files prov ?vm (?n, s, spoken),
                   log := log st @ line_log prov ?vm (?n, s, spoken)\<rparr>"
    have step: "generate_step prov P ?n s st = Inr ?st'"
      using generate_step_voiced [OF True xs k klt, of prov ?n] nth by simp
    have inv': "\<forall>x \<in> fst ` set rest. voiced ?vm x \<longrightarrow>
                  index_tracker ?st' x = Some (length (texts_of ?pre' x))"
    proof (intro ballI impI)
      fix x assume x: "x \<in> fst ` set rest" and v: "voiced ?vm x"
      show "index_tracker ?st' x = Some (length (texts_of ?pre' x))"
      proof (cases "x = s")
        case True
        then show ?thesis using p by (simp add: texts_of_def)
      next
        case False
        moreover from x v Cons.prems(2) have "index_tracker st x = Some (length (texts_of pre x))"
          by auto
        ultimately show ?thesis using p by (simp add: texts_of_def)
      qed
    qed
    have last: "s \<notin> fst ` set rest \<Longrightarrow> length (texts_of tls s) = Suc ?k"
      using tx by (simp add: texts_of_notin)
    have "generate_loop prov P ?n (map fst (p # rest)) st
            = generate_loop prov P (Suc (length ?pre')) (map fst rest) ?st'"
      using step p by simp
    also note Cons.IH [OF split' inv']
    finally have eq: "generate_loop prov P ?n (map fst (p # rest)) st = Inr (?st'\<lparr>index_tracker := (\<lambda>s. if voiced (voice_map P) s \<and> s \<in> fst ` set rest
                                    then Some (length (texts_of tls s)) else index_tracker ?st' s),
             files := files ?st' @ concat (map (line_files prov (voice_map P))
                                          (List.enumerate (Suc (length ?pre')) rest)),
             log := log ?st' @ concat (map (line_log prov (voice_map P))
                                      (List.enumerate (Suc (length ?pre')) rest))\<rparr>)" .
    show ?thesis
      unfolding eq using True p last
      by (auto intro!: gen_state.equality simp: fun_eq_iff)
  qed
qed

lemma generate_loop_no_lines:
  fixes st :: "'a gen_state"
  assumes "\<forall>s \<in> set orders. lines_per_speaker P s = None"
  shows "generate_loop prov P n orders st =
     Inr (st\<lparr>log := log st @ map (\<lambda>(k, s). if voiced (voice_map P) s
                                            then Warning_out_of_bounds s k
                                            else Warning_no_voice k s)
                                 (List.enumerate n orders)\<rparr>)"
  using assms
proof (induction orders arbitrary: n st)
  case Nil
  show ?case by simp
next
  case (Cons s orders)
  have step: "generate_step prov P n s st =
      Inr (st\<lparr>log := log st @ [if voiced (voice_map P) s then Warning_out_of_bounds s n
                                else Warning_no_voice n s]\<rparr>)"
    using Cons.prems
    by (auto simp: generate_step_def voiced_def Let_def split: option.splits)
  show ?case
    using Cons.prems by (simp add: step Cons.IH)
qed

lemma tagged_lines_empty_names:
  "tagged_lines ls = [] \<Longrightarrow> extract_speaker_names ls = []"
  by (simp add: extract_speaker_names_eq)

lemma build_processor_eq:
  "build_processor ls vm =
     Inr \<lparr> lines = ls, speaker_names = extract_speaker_names ls,
           speaker_orders = extract_speaker_order (extract_speaker_names ls) ls,
           lines_per_speaker = (\<lambda>s. if s \<in> fst ` set (tagged_lines ls)
                                     then Some (texts_of (tagged_lines ls) s) else None),
           voice_map = vm \<rparr>"
  by (simp add: build_processor_def extract_lines_per_speaker_eq Let_def)

lemma speaker_order_tagged:
  assumes "tagged_lines ls \<noteq> []"
  shows "extract_speaker_order (extract_speaker_names ls) ls = map fst (tagged_lines ls)"
proof (rule extract_speaker_order_eq)
  show "fst ` set (tagged_lines ls) \<subseteq> set (extract_speaker_names ls)"
    by (simp add: set_extract_speaker_names)
  show "extract_speaker_names ls \<noteq> []"
  proof
    assume "extract_speaker_names ls = []"
    then have "set (extract_speaker_names ls) = {}" by simp
    then have "fst ` set (tagged_lines ls) = {}" by (simp only: set_extract_speaker_names)
    with assms show False by simp
  qed
  show "\<forall>alt\<in>set (extract_speaker_names ls). alt \<noteq> [] \<and> CHR '']'' \<notin> set alt"
    by (auto simp: set_extract_speaker_names dest: tagged_name_ok)
qed

lemma generate_audio_tagged:
  assumes P: "build_processor ls vm = Inr P" and ne: "tagged_lines ls \<noteq> []"
  shows "generate_audio prov P =
     Inr \<lparr> index_tracker = (\<lambda>s. if s \<in> fst ` set (tagged_lines ls)
                                 then Some (if voiced vm s then length (texts_of (tagged_lines ls) s) else 0)
                                 else None),
           files = concat (map (line_files prov vm) (List.enumerate 1 (tagged_lines ls))),
           log = Info_starting # concat (map (line_log prov vm) (List.enumerate 1 (tagged_lines ls))) \<rparr>"
proof -
  let ?tls = "tagged_lines ls"
  from P have Peq: "P = \<lparr> lines = ls, speaker_names = extract_speaker_names ls,
           speaker_orders = map fst ?tls,
           lines_per_speaker = (\<lambda>s. if s \<in> fst ` set ?tls then Some (texts_of ?tls s) else None),
           voice_map = vm \<rparr>"
    by (simp add: build_processor_eq speaker_order_tagged [OF ne])
  have lps: "\<forall>s \<in> fst ` set ?tls. lines_per_speaker P s = Some (texts_of ?tls s)"
    by (simp add: Peq)
  have inv: "\<forall>s \<in> fst ` set ?tls. voiced (voice_map P) s \<longrightarrow>
                index_tracker (initial_state P :: 'a gen_state) s = Some (length (texts_of [] s))"
    by (simp add: Peq initial_state_def set_extract_speaker_names texts_of_def)
  have "generate_audio prov P = generate_loop prov P (Suc (length ([] :: (string \<times> string) list)))
          (map fst ?tls) (initial_state P)"
    by (simp add: generate_audio_def Peq)
  also note generate_loop_tagged [OF lps _ inv, of prov]
  finally show ?thesis
    by (auto simp: Peq initial_state_def set_extract_speaker_names fun_eq_iff)
qed

lemma generate_audio_untagged:
  assumes P: "build_processor ls vm = Inr P" and e: "tagged_lines ls = []"
  shows "generate_audio prov P =
     Inr \<lparr> index_tracker = Map.empty, files = [],
           log = Info_starting # map (\<lambda>(k, s). if voiced vm s then Warning_out_of_bounds s k
                                                 else Warning_no_voice k s)
                                      (List.enumerate 1 (speaker_orders P)) \<rparr>"
proof -
  from P e have lps: "lines_per_speaker P = Map.empty" and vm: "voice_map P = vm"
    and names: "speaker_names P = []"
    by (auto simp: build_processor_eq tagged_lines_empty_names)
  have "\<forall>s \<in> set (speaker_orders P). lines_per_speaker P s = None"
    by (simp add: lps)
  from generate_loop_no_lines [OF this, of prov 1 "initial_state P"] show ?thesis
    by (simp add: generate_audio_def initial_state_def names vm)
qed

lemma script3_tagged:
  "tagged_lines (readlines ''[A]: hi\<newline>[B]: yo\<newline>[A]: bye\<newline>'')
     = [(''A'', ''hi''), (''B'', ''yo''), (''A'', ''bye'')]"
  by code_simp

lemma names3: "sanitize_filename (clip_name (Suc 0) ''A'') = ''1_a.wav''"
  "sanitize_filename (clip_name (Suc (Suc 0)) ''B'') = ''2_b.wav''"
  "sanitize_filename (clip_name (Suc (Suc (Suc 0))) ''A'') = ''3_a.wav''"
  by code_simp+

lemma run_script_tagged:
  assumes "tagged_lines (readlines script) \<noteq> []"
  shows "run_script prov script vm =
     Inr \<lparr> index_tracker = (\<lambda>s. if s \<in> fst ` set (tagged_lines (readlines script))
                                 then Some (if voiced vm s then length (texts_of (tagged_lines (readlines script)) s) else 0)
                                 else None),
           files = concat (map (line_files prov vm) (List.enumerate 1 (tagged_lines (readlines script)))),
           log = Info_starting # concat (map (line_log prov vm) (List.enumerate 1 (tagged_lines (readlines script)))) \<rparr>"
  using generate_audio_tagged [OF _ assms, of vm _ prov]
  by (simp add: run_script_def build_processor_eq)

section \<open>The claims\<close>

text \<open>
  Claim C3. For the script text \<^verbatim>\<open>"[A]: hi\n[B]: yo\n[A]: bye\n"\<close>, a voice map that
  gives a voice (a non-empty string) to both A and B, and a provider whose every call
  succeeds, the run completes and writes exactly three files, in this order:
  \<^verbatim>\<open>1_a.wav\<close> with the audio the provider returns for the text \<open>hi\<close> and the voice of A,
  \<^verbatim>\<open>2_b.wav\<close> for \<open>yo\<close> and the voice of B, \<^verbatim>\<open>3_a.wav\<close> for \<open>bye\<close> and the voice of A.
\<close>

theorem C3_three_clips:
  assumes "vm ''A'' = Some v1" and "vm ''B'' = Some v2" and "v1 \<noteq> []" and "v2 \<noteq> []"
    and "\<forall>t f v. prov t f v \<noteq> None"
  shows "\<exists>st a1 a2 a3.
           run_script prov ''[A]: hi\<newline>[B]: yo\<newline>[A]: bye\<newline>'' vm = Inr st
           \<and> prov ''hi'' ''1_a.wav'' v1 = Some a1
           \<and> prov ''yo'' ''2_b.wav'' v2 = Some a2
           \<and> prov ''bye'' ''3_a.wav'' v1 = Some a3
           \<and> files st = [(''1_a.wav'', a1), (''2_b.wav'', a2), (''3_a.wav'', a3)]"
proof -
  let ?script = "''[A]: hi\<newline>[B]: yo\<newline>[A]: bye\<newline>''"
  from assms(5) obtain a1 a2 a3 where a: "prov ''hi'' ''1_a.wav'' v1 = Some a1"
    "prov ''yo'' ''2_b.wav'' v2 = Some a2" "prov ''bye'' ''3_a.wav'' v1 = Some a3"
    by (metis option.exhaust)
  have ne: "tagged_lines (readlines ?script) \<noteq> []"
    by (simp add: script3_tagged)
  have "files (projr (run_script prov ?script vm)) = [(''1_a.wav'', a1), (''2_b.wav'', a2), (''3_a.wav'', a3)]"
    unfolding run_script_tagged [OF ne] script3_tagged
    using assms(1-4) a
    by (simp add: line_files_def names3 eval_nat_numeral)
  moreover have "\<exists>st. run_script prov ?script vm = Inr st"
    unfolding run_script_tagged [OF ne] by simp
  ultimately show ?thesis using a by auto
qed

theorem C3_three_clips_witness:
  "\<exists>st. run_script (\<lambda>t f v. Some (v, t)) ''[A]: hi\<newline>[B]: yo\<newline>[A]: bye\<newline>''
            [''A'' \<mapsto> ''v1'', ''B'' \<mapsto> ''v2''] = Inr st
        \<and> files st = [(''1_a.wav'', (''v1'', ''hi'')), (''2_b.wav'', (''v2'', ''yo'')),
                      (''3_a.wav'', (''v1'', ''bye''))]"
  using C3_three_clips [of "[''A'' \<mapsto> ''v1'', ''B'' \<mapsto> ''v2'']" "''v1''" "''v2''"
                           "\<lambda>t f v. Some (v, t)"]
  by auto

lemma run_script_untagged:
  assumes "tagged_lines (readlines script) = []"
  shows "\<exists>P. build_processor (readlines script) vm = Inr P \<and>
     run_script prov script vm =
     Inr \<lparr> index_tracker = Map.empty, files = [],
           log = Info_starting # map (\<lambda>(k, s). if voiced vm s then Warning_out_of_bounds s k
                                                 else Warning_no_voice k s)
                                      (List.enumerate 1 (speaker_orders P)) \<rparr>"
proof -
  obtain P where P: "build_processor (readlines script) vm = Inr P"
    by (simp add: build_processor_eq)
  from generate_audio_untagged [OF P assms, of prov] P show ?thesis
    by (simp add: run_script_def)
qed

lemma run_script_files:
  "\<exists>st. run_script prov script vm = Inr st \<and>
     files st = concat (map (line_files prov vm) (List.enumerate 1 (tagged_lines (readlines script))))"
proof (cases "tagged_lines (readlines script) = []")
  case True
  from run_script_untagged [OF True, of vm prov] True show ?thesis by auto
next
  case False
  show ?thesis unfolding run_script_tagged [OF False] by simp
qed

lemma line_files_member:
  assumes "(n, s, t) \<in> set xs" "vm s = Some v" "v \<noteq> []"
    "prov t (sanitize_filename (clip_name n s)) v = Some a"
  shows "(sanitize_filename (clip_name n s), a) \<in> set (concat (map (line_files prov vm) xs))"
proof -
  have "line_files prov vm (n, s, t) = [(sanitize_filename (clip_name n s), a)]"
    using assms(2-4) by (simp add: line_files_def)
  with assms(1) show ?thesis by force
qed

text \<open>
  Claim C5. A failure of the provider on one line does not abort the run: for every
  script, voice map and provider the run completes, and the files written are exactly
  what each tagged line adds on its own, in script order: nothing when the speaker has
  no voice or when the provider call of that line fails, and the clip of that line
  otherwise. So every line with a voice whose own provider call succeeds has its clip
  written, whatever happens on the other lines.
\<close>

theorem C5_provider_failure_isolated:
  "\<exists>st. run_script prov script vm = Inr st
     \<and> files st = concat (map (line_files prov vm)
                            (List.enumerate 1 (tagged_lines (readlines script))))
     \<and> (\<forall>n s t v a. (n, s, t) \<in> set (List.enumerate 1 (tagged_lines (readlines script)))
            \<and> vm s = Some v \<and> v \<noteq> []
            \<and> prov t (sanitize_filename (clip_name n s)) v = Some a
          \<longrightarrow> (sanitize_filename (clip_name n s), a) \<in> set (files st))"
proof -
  from run_script_files [of prov script vm] obtain st where
    st: "run_script prov script vm = Inr st"
    "files st = concat (map (line_files prov vm) (List.enumerate 1 (tagged_lines (readlines script))))"
    by auto
  have "\<forall>n s t v a. (n, s, t) \<in> set (List.enumerate 1 (tagged_lines (readlines script)))
            \<and> vm s = Some v \<and> v \<noteq> []
            \<and> prov t (sanitize_filename (clip_name n s)) v = Some a
          \<longrightarrow> (sanitize_filename (clip_name n s), a) \<in> set (files st)"
    unfolding st(2) using line_files_member [of _ _ _ _ vm _ prov] by blast
  with st show ?thesis by blast
qed

theorem C5_provider_failure_isolated_witness:
  "\<exists>st. run_script (fails_on ''2_b.wav'') ''[A]: hi\<newline>[B]: yo\<newline>[A]: bye\<newline>''
            [''A'' \<mapsto> ''v1'', ''B'' \<mapsto> ''v2''] = Inr st
        \<and> files st = [(''1_a.wav'', (''v1'', ''hi'')), (''3_a.wav'', (''v1'', ''bye''))]"
  using C5_provider_failure_isolated [of "fails_on ''2_b.wav''"
      "''[A]: hi\<newline>[B]: yo\<newline>[A]: bye\<newline>''" "[''A'' \<mapsto> ''v1'', ''B'' \<mapsto> ''v2'']"]
  by (auto simp: script3_tagged line_files_def names3 eval_nat_numeral fails_on_def)

lemma no_voice_line_log:
  "filter is_no_voice (line_log prov vm (n, s, t)) = (if voiced vm s then [] else [Warning_no_voice n s])"
  by (simp add: line_log_def voiced_def is_no_voice_def split: option.splits)

lemma no_voice_tagged:
  "filter is_no_voice (concat (map (line_log prov vm) (List.enumerate n tls)))
     = map (\<lambda>(k, s). Warning_no_voice k s)
           (filter (\<lambda>(k, s). \<not> voiced vm s) (List.enumerate n (map fst tls)))"
proof (induction tls arbitrary: n)
  case Nil
  show ?case by simp
next
  case (Cons p tls)
  obtain s t where p: "p = (s, t)" by (cases p)
  show ?case using Cons.IH [of "Suc n"] by (simp add: p no_voice_line_log)
qed

lemma no_voice_untagged:
  "filter is_no_voice (map (\<lambda>(k, s). if voiced vm s then Warning_out_of_bounds s k
                                       else Warning_no_voice k s) (List.enumerate n orders))
     = map (\<lambda>(k, s). Warning_no_voice k s)
           (filter (\<lambda>(k, s). \<not> voiced vm s) (List.enumerate n orders))"
  by (induction orders arbitrary: n) (auto simp: is_no_voice_def)

lemma unvoiced_None: "vm s = None \<Longrightarrow> \<not> voiced vm s"
  by (simp add: voiced_def)

text \<open>
  Claim C7. For every script, voice map and provider the run completes. The warnings
  for a missing voice are exactly the entries of \<open>speaker_orders\<close> whose speaker has no
  voice, with their line numbers; the files are what the tagged lines add, and a line of
  a speaker without an entry in the voice map adds no file; the cursor of such a speaker
  is at the end what it was at the start.
\<close>

theorem C7_unvoiced_speaker_skipped:
  fixes prov :: "'a provider"
  shows "\<exists>P st. build_processor (readlines script) vm = Inr P
     \<and> generate_audio prov P = Inr st
     \<and> files st = concat (map (line_files prov vm)
                            (List.enumerate 1 (tagged_lines (readlines script))))
     \<and> filter is_no_voice (log st)
         = map (\<lambda>(n, s). Warning_no_voice n s)
               (filter (\<lambda>(n, s). \<not> voiced vm s) (List.enumerate 1 (speaker_orders P)))
     \<and> (\<forall>s. vm s = None \<longrightarrow>
            index_tracker st s = index_tracker (initial_state P :: 'a gen_state) s
            \<and> (\<forall>n t. line_files prov vm (n, s, t) = []))"
proof -
  let ?tls = "tagged_lines (readlines script)"
  obtain P where P: "build_processor (readlines script) vm = Inr P"
    by (simp add: build_processor_eq)
  from P have "speaker_names P = extract_speaker_names (readlines script)"
    by (auto simp: build_processor_eq)
  then have names: "set (speaker_names P) = fst ` set ?tls"
    by (simp only: set_extract_speaker_names)
  have nofile: "\<forall>s. vm s = None \<longrightarrow> (\<forall>n t. line_files prov vm (n, s, t) = [])"
    by (simp add: line_files_def)
  show ?thesis
  proof (cases "?tls = []")
    case True
    let ?st = "\<lparr> index_tracker = Map.empty, files = [],
           log = Info_starting # map (\<lambda>(k, s). if voiced vm s then Warning_out_of_bounds s k
                                                 else Warning_no_voice k s)
                                      (List.enumerate 1 (speaker_orders P)) \<rparr> :: 'a gen_state"
    have g: "generate_audio prov P = Inr ?st"
      by (rule generate_audio_untagged [OF P True])
    have "filter is_no_voice (log ?st) = map (\<lambda>(n, s). Warning_no_voice n s)
               (filter (\<lambda>(n, s). \<not> voiced vm s) (List.enumerate 1 (speaker_orders P)))"
      by (simp add: no_voice_untagged is_no_voice_def)
    moreover have "\<forall>s. index_tracker ?st s = index_tracker (initial_state P :: 'a gen_state) s"
      using True names by (simp add: initial_state_def)
    moreover have "files ?st = concat (map (line_files prov vm) (List.enumerate 1 ?tls))"
      using True by simp
    ultimately show ?thesis using P g nofile by blast
  next
    case False
    let ?st = "\<lparr> index_tracker = (\<lambda>s. if s \<in> fst ` set ?tls
                                 then Some (if voiced vm s then length (texts_of ?tls s) else 0)
                                 else None),
           files = concat (map (line_files prov vm) (List.enumerate 1 ?tls)),
           log = Info_starting # concat (map (line_log prov vm) (List.enumerate 1 ?tls)) \<rparr>"
    have g: "generate_audio prov P = Inr ?st"
      by (rule generate_audio_tagged [OF P False])
    have orders: "speaker_orders P = map fst ?tls"
      using P by (auto simp: build_processor_eq speaker_order_tagged [OF False])
    have "filter is_no_voice (log ?st) = map (\<lambda>(n, s). Warning_no_voice n s)
               (filter (\<lambda>(n, s). \<not> voiced vm s) (List.enumerate 1 (speaker_orders P)))"
      by (simp add: no_voice_tagged orders is_no_voice_def)
    moreover have "\<forall>s. vm s = None \<longrightarrow> index_tracker ?st s = index_tracker (initial_state P :: 'a gen_state) s"
      using names by (simp add: initial_state_def unvoiced_None)
    moreover have "files ?st = concat (map (line_files prov vm) (List.enumerate 1 ?tls))"
      by simp
    ultimately show ?thesis using P g nofile by blast
  qed
qed

lemma script3_orders:
  "extract_speaker_order [''A'', ''B'']
     (readlines ''[A]: hi\<newline>[B]: yo\<newline>[A]: bye\<newline>'') = [''A'', ''B'', ''A'']"
  by code_simp

lemma script3_names:
  "extract_speaker_names (readlines ''[A]: hi\<newline>[B]: yo\<newline>[A]: bye\<newline>'') = [''A'', ''B'']"
  by code_simp

theorem C7_unvoiced_speaker_skipped_witness:
  "\<exists>P st. build_processor (readlines ''[A]: hi\<newline>[B]: yo\<newline>[A]: bye\<newline>'') [''A'' \<mapsto> ''v1''] = Inr P
     \<and> generate_audio always_ok P = Inr st
     \<and> files st = [(''1_a.wav'', (''v1'', ''hi'')), (''3_a.wav'', (''v1'', ''bye''))]
     \<and> filter is_no_voice (log st) = [Warning_no_voice 2 ''B'']
     \<and> index_tracker st ''B'' = Some 0"
proof -
  let ?script = "''[A]: hi\<newline>[B]: yo\<newline>[A]: bye\<newline>''"
  let ?vm = "[''A'' \<mapsto> ''v1'']"
  from C7_unvoiced_speaker_skipped [of ?script ?vm always_ok]
  obtain P st where P: "build_processor (readlines ?script) ?vm = Inr P"
    and g: "generate_audio always_ok P = Inr st"
    and f: "files st = concat (map (line_files always_ok ?vm)
                            (List.enumerate 1 (tagged_lines (readlines ?script))))"
    and w: "filter is_no_voice (log st)
         = map (\<lambda>(n, s). Warning_no_voice n s)
               (filter (\<lambda>(n, s). \<not> voiced ?vm s) (List.enumerate 1 (speaker_orders P)))"
    and c: "\<forall>s. ?vm s = None \<longrightarrow>
            index_tracker st s = index_tracker (initial_state P :: (string \<times> string) gen_state) s"
    by blast
  from P have o: "speaker_orders P = [''A'', ''B'', ''A'']" and n: "speaker_names P = [''A'', ''B'']"
    by (auto simp: build_processor_eq script3_orders script3_names)
  have "files st = [(''1_a.wav'', (''v1'', ''hi'')), (''3_a.wav'', (''v1'', ''bye''))]"
    unfolding f by (simp add: script3_tagged line_files_def names3 eval_nat_numeral always_ok_def)
  moreover have "filter is_no_voice (log st) = [Warning_no_voice 2 ''B'']"
    unfolding w o by (simp add: voiced_def eval_nat_numeral)
  moreover have "index_tracker st ''B'' = Some 0"
    using c n by (simp add: initial_state_def)
  ultimately show ?thesis using P g by blast
qed

lemma script1_tagged: "tagged_lines (readlines ''[A]: hi\<newline>'') = [(''A'', ''hi'')]"
  by code_simp

text \<open>
  Claim C4, as stated, fails: for the script \<^verbatim>\<open>"[A]: hi\n"\<close>, a voice for A and a provider
  that fails, no file is written and the failure is logged, yet the cursor of A is 1.
\<close>

theorem C4_counterexample:
  "run_script always_fails ''[A]: hi\<newline>'' [''A'' \<mapsto> ''v1'']
     = Inr \<lparr> index_tracker = [''A'' \<mapsto> 1], files = [],
             log = [Info_starting, Info_generating ''1_a.wav'', Exception_generating 1 ''A''] \<rparr>"
proof -
  have ne: "tagged_lines (readlines ''[A]: hi\<newline>'') \<noteq> []"
    by (simp add: script1_tagged)
  show ?thesis
    unfolding run_script_tagged [OF ne] script1_tagged
    by (auto simp: line_files_def line_log_def names3 always_fails_def voiced_def texts_of_def fun_eq_iff)
qed

text \<open>
  Claim C4, amended. The cursor of a speaker is advanced by one exactly when a line of
  that speaker passes the voice check and the bound check, before the provider is called
  and whatever the provider then does. At the end of a run on a script the cursor of
  every speaker with a voice is the number of that speaker's tagged lines, and the
  cursor of every other speaker of the script is 0, for every provider. One iteration of
  the loop changes the tracker as follows: when the speaker has a voice and the cursor
  is below the number of the speaker's lines, the cursor of that speaker goes up by one
  (\<open>KeyError\<close> when the tracker has no entry for the speaker); otherwise the tracker is
  unchanged.
\<close>

theorem C4_cursor_before_provider:
  fixes prov :: "'a provider"
  shows "(\<exists>st. run_script prov script vm = Inr st
            \<and> index_tracker st
                = (\<lambda>s. if s \<in> fst ` set (tagged_lines (readlines script))
                       then Some (if voiced vm s
                                  then length (texts_of (tagged_lines (readlines script)) s) else 0)
                       else None))
       \<and> map_sum id index_tracker (generate_step prov P n s st0)
           = (if voiced (voice_map P) s
                 \<and> (case index_tracker st0 s of None \<Rightarrow> 0 | Some i \<Rightarrow> i)
                     < length (case lines_per_speaker P s of None \<Rightarrow> [] | Some xs \<Rightarrow> xs)
              then (case index_tracker st0 s of
                      None \<Rightarrow> Inl KeyError
                    | Some i \<Rightarrow> Inr ((index_tracker st0)(s \<mapsto> i + 1)))
              else Inr (index_tracker st0))"
proof
  show "\<exists>st. run_script prov script vm = Inr st
            \<and> index_tracker st
                = (\<lambda>s. if s \<in> fst ` set (tagged_lines (readlines script))
                       then Some (if voiced vm s
                                  then length (texts_of (tagged_lines (readlines script)) s) else 0)
                       else None)"
  proof (cases "tagged_lines (readlines script) = []")
    case True
    from run_script_untagged [OF True, of vm prov] True show ?thesis by auto
  next
    case False
    show ?thesis unfolding run_script_tagged [OF False] by simp
  qed
  show "map_sum id index_tracker (generate_step prov P n s st0)
           = (if voiced (voice_map P) s
                 \<and> (case index_tracker st0 s of None \<Rightarrow> 0 | Some i \<Rightarrow> i)
                     < length (case lines_per_speaker P s of None \<Rightarrow> [] | Some xs \<Rightarrow> xs)
              then (case index_tracker st0 s of
                      None \<Rightarrow> Inl KeyError
                    | Some i \<Rightarrow> Inr ((index_tracker st0)(s \<mapsto> i + 1)))
              else Inr (index_tracker st0))"
    by (auto simp: generate_step_def voiced_def generate_single_audio_def Let_def
        split: option.splits)
qed

theorem C4_cursor_before_provider_witness:
  "\<exists>st. run_script always_fails ''[A]: hi\<newline>[B]: yo\<newline>[A]: bye\<newline>'' [''A'' \<mapsto> ''v1''] = Inr st
        \<and> index_tracker st ''A'' = Some 2 \<and> index_tracker st ''B'' = Some 0 \<and> files st = []"
proof -
  let ?script = "''[A]: hi\<newline>[B]: yo\<newline>[A]: bye\<newline>''"
  let ?vm = "[''A'' \<mapsto> ''v1'']"
  from C4_cursor_before_provider [of always_fails ?script ?vm]
  obtain st where st: "run_script always_fails ?script ?vm = Inr st"
    and c: "index_tracker st
                = (\<lambda>s. if s \<in> fst ` set (tagged_lines (readlines ?script))
                       then Some (if voiced ?vm s
                                  then length (texts_of (tagged_lines (readlines ?script)) s) else 0)
                       else None)"
    by blast
  from run_script_files [of always_fails ?script ?vm] st
  have "files st = []"
    by (simp add: script3_tagged line_files_def always_fails_def eval_nat_numeral)
  moreover have "index_tracker st ''A'' = Some 2" "index_tracker st ''B'' = Some 0"
    unfolding c by (simp_all add: script3_tagged voiced_def texts_of_def)
  ultimately show ?thesis using st by blast
qed

lemma generate_step_falsy_voice:
  "generate_step prov (P\<lparr>voice_map := vm(s \<mapsto> [])\<rparr>) n x st
     = generate_step prov (P\<lparr>voice_map := vm(s := None)\<rparr>) n x st"
  by (auto simp: generate_step_def Let_def split: option.splits)

lemma generate_loop_falsy_voice:
  "generate_loop prov (P\<lparr>voice_map := vm(s \<mapsto> [])\<rparr>) n orders st
     = generate_loop prov (P\<lparr>voice_map := vm(s := None)\<rparr>) n orders st"
  by (induction orders arbitrary: n st)
     (auto simp: generate_step_falsy_voice split: sum.splits)

text \<open>
  Claim C10. A voice map that gives a speaker the empty string behaves exactly as the
  voice map without an entry for that speaker: \<^verbatim>\<open>generate_audio\<close> returns the same result
  (cursors, files and log) for every processor and every provider, and so does a run on
  a script; each line of that speaker only adds the warning to the log, so no file is
  written for it and no cursor moves.
\<close>

theorem C10_empty_voice_as_missing:
  fixes prov :: "'a provider"
  shows "generate_audio prov (P\<lparr>voice_map := vm(s \<mapsto> [])\<rparr>)
           = generate_audio prov (P\<lparr>voice_map := vm(s := None)\<rparr>)
       \<and> run_script prov script (vm(s \<mapsto> [])) = run_script prov script (vm(s := None))
       \<and> generate_step prov (P\<lparr>voice_map := vm(s \<mapsto> [])\<rparr>) n s st
           = Inr (st\<lparr>log := log st @ [Warning_no_voice n s]\<rparr>)"
proof (intro conjI)
  show g: "generate_audio prov (P\<lparr>voice_map := vm(s \<mapsto> [])\<rparr>)
           = generate_audio prov (P\<lparr>voice_map := vm(s := None)\<rparr>)" for P
    by (simp add: generate_audio_def initial_state_def generate_loop_falsy_voice)
  let ?P = "\<lparr> lines = readlines script, speaker_names = extract_speaker_names (readlines script),
           speaker_orders = extract_speaker_order (extract_speaker_names (readlines script)) (readlines script),
           lines_per_speaker = (\<lambda>s. if s \<in> fst ` set (tagged_lines (readlines script))
                                     then Some (texts_of (tagged_lines (readlines script)) s) else None),
           voice_map = vm \<rparr>"
  have "run_script prov script (vm(s \<mapsto> [])) = generate_audio prov (?P\<lparr>voice_map := vm(s \<mapsto> [])\<rparr>)"
    by (simp add: run_script_def build_processor_eq)
  also have "\<dots> = generate_audio prov (?P\<lparr>voice_map := vm(s := None)\<rparr>)"
    by (rule g)
  also have "\<dots> = run_script prov script (vm(s := None))"
    by (simp add: run_script_def build_processor_eq)
  finally show "run_script prov script (vm(s \<mapsto> [])) = run_script prov script (vm(s := None))" .
  show "generate_step prov (P\<lparr>voice_map := vm(s \<mapsto> [])\<rparr>) n s st
           = Inr (st\<lparr>log := log st @ [Warning_no_voice n s]\<rparr>)"
    by (simp add: generate_step_def)
qed

theorem C10_empty_voice_as_missing_witness:
  "run_script always_ok ''[A]: hi\<newline>[B]: yo\<newline>[A]: bye\<newline>'' [''A'' \<mapsto> ''v1'', ''B'' \<mapsto> []]
     = Inr \<lparr> index_tracker = [''A'' \<mapsto> 2, ''B'' \<mapsto> 0],
             files = [(''1_a.wav'', (''v1'', ''hi'')), (''3_a.wav'', (''v1'', ''bye''))],
             log = [Info_starting, Info_generating ''1_a.wav'', Warning_no_voice 2 ''B'',
                    Info_generating ''3_a.wav''] \<rparr>"
proof -
  let ?script = "''[A]: hi\<newline>[B]: yo\<newline>[A]: bye\<newline>''"
  have ne: "tagged_lines (readlines ?script) \<noteq> []"
    by (simp add: script3_tagged)
  have "run_script always_ok ?script [''A'' \<mapsto> ''v1'', ''B'' \<mapsto> []]
          = run_script always_ok ?script ([''A'' \<mapsto> ''v1''](''B'' := None))"
    using C10_empty_voice_as_missing [where prov = always_ok and vm = "[''A'' \<mapsto> ''v1'']"
        and s = "''B''" and script = ?script] by blast
  also have "\<dots> = Inr \<lparr> index_tracker = [''A'' \<mapsto> 2, ''B'' \<mapsto> 0],
             files = [(''1_a.wav'', (''v1'', ''hi'')), (''3_a.wav'', (''v1'', ''bye''))],
             log = [Info_starting, Info_generating ''1_a.wav'', Warning_no_voice 2 ''B'',
                    Info_generating ''3_a.wav''] \<rparr>"
    unfolding run_script_tagged [OF ne] script3_tagged
    by (auto simp: line_files_def line_log_def names3 always_ok_def voiced_def texts_of_def
        fun_eq_iff eval_nat_numeral)
  finally show ?thesis .
qed

text \<open>
  Claim C1, at the script \<^verbatim>\<open>"[]: hi\n"\<close>. No line of this script matches the tag grammar,
  there is no speaker name and \<open>lines_per_speaker\<close> is empty, yet \<open>speaker_orders\<close> has one
  entry, the empty name: without speaker names the pattern of \<^verbatim>\<open>_extract_speaker_order\<close>
  is \<^verbatim>\<open>^\[()\]:\<close>, which the line matches.
\<close>

theorem C1_failing_input:
  "build_processor (readlines ''[]: hi\<newline>'') vm
     = Inr \<lparr> lines = [''[]: hi\<newline>''], speaker_names = [], speaker_orders = [[]],
             lines_per_speaker = Map.empty, voice_map = vm \<rparr>
   \<and> length (filter (\<lambda>line. tag_match (strip line) \<noteq> None) (readlines ''[]: hi\<newline>'')) = 0"
proof -
  have r: "readlines ''[]: hi\<newline>'' = [''[]: hi\<newline>'']" by code_simp
  have t: "tagged_lines [''[]: hi\<newline>''] = []" by code_simp
  have n: "extract_speaker_names [''[]: hi\<newline>''] = []" by code_simp
  have o: "extract_speaker_order [] [''[]: hi\<newline>''] = [[]]" by code_simp
  have m: "tag_match (strip ''[]: hi\<newline>'') = None" by code_simp
  show ?thesis
    by (simp add: r build_processor_eq t n o m)
qed

lemma count_tagged:
  "length (filter (\<lambda>line. tag_match (strip line) \<noteq> None) ls) = length (tagged_lines ls)"
  by (induction ls) (auto simp: tagged_lines_Cons split: option.splits)

lemma count_list_texts: "count_list (map fst tls) s = length (texts_of tls s)"
  by (induction tls) (auto simp: texts_of_def)

lemma parsed_script_invariant:
  assumes "tagged_lines ls \<noteq> []"
  shows "\<exists>P. build_processor ls vm = Inr P
     \<and> speaker_orders P = map fst (tagged_lines ls)
     \<and> length (speaker_orders P) = length (filter (\<lambda>line. tag_match (strip line) \<noteq> None) ls)
     \<and> (\<forall>s \<in> set (speaker_orders P).
           lines_per_speaker P s = Some (texts_of (tagged_lines ls) s)
           \<and> count_list (speaker_orders P) s = length (texts_of (tagged_lines ls) s))"
proof -
  let ?tls = "tagged_lines ls"
  let ?P = "\<lparr> lines = ls, speaker_names = extract_speaker_names ls,
           speaker_orders = map fst ?tls,
           lines_per_speaker = (\<lambda>s. if s \<in> fst ` set ?tls then Some (texts_of ?tls s) else None),
           voice_map = vm \<rparr>"
  have P: "build_processor ls vm = Inr ?P"
    by (simp add: build_processor_eq speaker_order_tagged [OF assms])
  have len: "length (speaker_orders ?P) = length (filter (\<lambda>line. tag_match (strip line) \<noteq> None) ls)"
    unfolding count_tagged by simp
  have per: "\<forall>s \<in> set (speaker_orders ?P).
           lines_per_speaker ?P s = Some (texts_of ?tls s)
           \<and> count_list (speaker_orders ?P) s = length (texts_of ?tls s)"
    by (simp add: count_list_texts)
  from P len per show ?thesis by (intro exI [of _ ?P]) simp
qed

lemma digit_char_digit: "d < 10 \<Longrightarrow> re_digit (digit_char d)"
  by (simp add: re_digit_def digit_char_def)

lemma digit_val_digit_char: "d < 10 \<Longrightarrow> digit_val (digit_char d) = d"
  by (simp add: digit_val_def digit_char_def)

lemma str_nat_digits: "\<forall>c \<in> set (str_nat n). re_digit c"
proof (induction n rule: str_nat.induct)
  case (1 n)
  show ?case
  proof (cases "n < 10")
    case True
    then show ?thesis by (subst str_nat.simps) (simp add: digit_char_digit)
  next
    case False
    with 1 show ?thesis by (subst str_nat.simps) (simp add: digit_char_digit)
  qed
qed

lemma str_nat_not_Nil: "str_nat n \<noteq> []"
  by (subst str_nat.simps) simp

lemma int_of_digits_snoc: "int_of_digits (xs @ [c]) = int_of_digits xs * 10 + digit_val c"
  by (simp add: int_of_digits_def)

lemma int_of_digits_str_nat: "int_of_digits (str_nat n) = n"
proof (induction n rule: str_nat.induct)
  case (1 n)
  show ?case
  proof (cases "n < 10")
    case True
    then show ?thesis
      by (subst str_nat.simps) (simp add: int_of_digits_def digit_val_digit_char)
  next
    case False
    with 1 have "int_of_digits (str_nat (n div 10)) = n div 10" by simp
    with False show ?thesis
      by (subst str_nat.simps) (simp add: int_of_digits_snoc digit_val_digit_char)
  qed
qed

lemma lower_char_letter: "ascii_letter (lower_char c) \<longleftrightarrow> ascii_letter c"
  by (auto simp: ascii_letter_def lower_char_def Let_def)

lemma lower_char_idem: "lower_char (lower_char c) = lower_char c"
  by (auto simp: lower_char_def Let_def)

lemma lower_idem: "lower (lower s) = lower s"
  by (simp add: lower_def lower_char_idem)

lemma letter_not_digit: "ascii_letter c \<Longrightarrow> \<not> re_digit c"
  by (auto simp: ascii_letter_def re_digit_def Let_def)

lemma letter_word: "ascii_letter c \<Longrightarrow> re_word c"
  by (simp add: re_word_def)

lemma digit_word: "re_digit c \<Longrightarrow> re_word c"
  by (simp add: re_word_def)

lemma underscore_class: "\<not> re_digit (CHR ''_'')" "\<not> ascii_letter (CHR ''_'')"
  "\<not> ascii_letter (CHR ''.'')"
  by (simp_all add: re_digit_def ascii_letter_def)

lemma sanitize_map: "sanitize_filename name = map sanitize_char name"
  by (simp add: sanitize_filename_def sanitize_char_def)

lemma sanitize_char_letter: "ascii_letter (sanitize_char c) \<longleftrightarrow> ascii_letter c"
  by (auto simp: sanitize_char_def underscore_class letter_word)

lemma sanitize_digits: "\<forall>c \<in> set xs. re_digit c \<Longrightarrow> sanitize_filename xs = xs"
  by (auto simp: sanitize_map sanitize_char_def digit_word intro: map_idI)

lemma sanitize_clip_name:
  "sanitize_filename (clip_name n s) = str_nat n @ ''_'' @ map sanitize_char (lower s) @ ''.wav''"
proof -
  have a: "sanitize_filename (clip_name n s)
          = sanitize_filename (str_nat n) @ sanitize_filename ''_'' @ sanitize_filename (lower s)
            @ sanitize_filename ''.wav''"
    by (simp add: clip_name_def sanitize_filename_def)
  have p1: "sanitize_filename ''_'' = ''_''" and p2: "sanitize_filename ''.wav'' = ''.wav''"
    by code_simp+
  have sd: "sanitize_filename (str_nat n) = str_nat n"
    by (rule sanitize_digits [OF str_nat_digits])
  show ?thesis
    unfolding a p1 p2 sd by (simp only: sanitize_map)
qed

lemma pattern_match_clip:
  "pattern_match (str_nat n @ ''_'' @ xs @ ''.wav'')
     = (if takeWhile ascii_letter xs = [] then None
        else if takeWhile ascii_letter xs = xs then Some (str_nat n, xs)
        else if prefix ''.wav'' (dropWhile ascii_letter xs @ ''.wav'')
             then Some (str_nat n, takeWhile ascii_letter xs) else None)"
proof -
  have tw: "takeWhile re_digit (str_nat n @ ''_'' @ xs @ ''.wav'') = str_nat n"
    using str_nat_digits [of n] by (simp add: takeWhile_append2 underscore_class)
  have dw: "dropWhile re_digit (str_nat n @ ''_'' @ xs @ ''.wav'') = CHR ''_'' # (xs @ ''.wav'')"
    using str_nat_digits [of n] by (simp add: dropWhile_append2 underscore_class)
  have pm: "pattern_match (str_nat n @ ''_'' @ xs @ ''.wav'')
      = (if takeWhile ascii_letter (xs @ ''.wav'') = [] then None
         else if prefix ''.wav'' (dropWhile ascii_letter (xs @ ''.wav''))
              then Some (str_nat n, takeWhile ascii_letter (xs @ ''.wav'')) else None)"
    unfolding pattern_match_def tw dw by (simp add: str_nat_not_Nil Let_def)
  show ?thesis
  proof (cases "\<forall>c \<in> set xs. ascii_letter c")
    case True
    have t1: "takeWhile ascii_letter (xs @ ''.wav'') = xs"
      using True by (simp add: takeWhile_append2 underscore_class)
    have t2: "dropWhile ascii_letter (xs @ ''.wav'') = ''.wav''"
      using True by (simp add: dropWhile_append2 underscore_class)
    have t3: "takeWhile ascii_letter xs = xs"
      using True by (simp add: takeWhile_eq_all_conv)
    show ?thesis unfolding pm t1 t2 t3 by simp
  next
    case False
    then obtain c where c: "c \<in> set xs" "\<not> ascii_letter c" by blast
    have t1: "takeWhile ascii_letter (xs @ ''.wav'') = takeWhile ascii_letter xs"
      using c by (rule takeWhile_append1)
    have t2: "dropWhile ascii_letter (xs @ ''.wav'') = dropWhile ascii_letter xs @ ''.wav''"
      using c by (rule dropWhile_append1)
    have t3: "takeWhile ascii_letter xs \<noteq> xs"
      using False by (simp add: takeWhile_eq_all_conv)
    show ?thesis unfolding pm t1 t2 using t3 by auto
  qed
qed

lemma underscore_code: "(of_char c :: nat) = 95 \<longleftrightarrow> c = CHR ''_''"
proof
  assume "(of_char c :: nat) = 95"
  then have "char_of (of_char c :: nat) = (char_of (95 :: nat) :: char)" by simp
  moreover have "(char_of (95 :: nat) :: char) = CHR ''_''" by code_simp
  ultimately show "c = CHR ''_''" by simp
qed simp

lemma sanitize_char_ascii:
  "(of_char c :: nat) < 128 \<Longrightarrow> sanitize_char c = (if spec_safe_char c then c else CHR ''_'')"
  by (auto simp: sanitize_char_def spec_safe_char_def re_word_def Let_def underscore_code)

lemma sanitize_letters: "\<forall>c \<in> set xs. ascii_letter c \<Longrightarrow> map sanitize_char xs = xs"
  by (auto simp: sanitize_char_def letter_word intro: map_idI)

lemma takeWhile_length_eq: "length (takeWhile P xs) = length xs \<Longrightarrow> takeWhile P xs = xs"
proof -
  assume a: "length (takeWhile P xs) = length xs"
  have "length (takeWhile P xs) + length (dropWhile P xs) = length xs"
    by (metis length_append takeWhile_dropWhile_id)
  with a have "dropWhile P xs = []" by simp
  then show ?thesis by (metis append_Nil2 takeWhile_dropWhile_id)
qed

lemma clip_key_recognized:
  "clip_key (sanitize_filename (clip_name n s)) = Some (n, lower s)
     \<longleftrightarrow> s \<noteq> [] \<and> (\<forall>c \<in> set s. ascii_letter c)"
proof
  let ?xs = "map sanitize_char (lower s)"
  assume k: "clip_key (sanitize_filename (clip_name n s)) = Some (n, lower s)"
  then obtain g1 g2 where pm: "pattern_match (str_nat n @ ''_'' @ ?xs @ ''.wav'') = Some (g1, g2)"
    and l: "lower g2 = lower s"
    by (auto simp: clip_key_def sanitize_clip_name)
  from pm have ne: "takeWhile ascii_letter ?xs \<noteq> []"
    unfolding pattern_match_clip by (auto split: if_splits)
  then have s: "s \<noteq> []" by (auto simp: lower_def)
  have len: "length g2 = length ?xs"
    using l by (metis length_map lower_def)
  have "takeWhile ascii_letter ?xs = ?xs"
  proof (rule ccontr)
    assume n: "takeWhile ascii_letter ?xs \<noteq> ?xs"
    with pm ne have "g2 = takeWhile ascii_letter ?xs"
      unfolding pattern_match_clip by (auto split: if_splits)
    with len have "takeWhile ascii_letter ?xs = ?xs"
      by (intro takeWhile_length_eq) simp
    with n show False by simp
  qed
  then have "\<forall>c \<in> set ?xs. ascii_letter c"
    by (simp only: takeWhile_eq_all_conv)
  then have "\<forall>c \<in> set s. ascii_letter c"
    by (simp add: lower_def sanitize_char_letter lower_char_letter)
  with s show "s \<noteq> [] \<and> (\<forall>c \<in> set s. ascii_letter c)" by simp
next
  assume a: "s \<noteq> [] \<and> (\<forall>c \<in> set s. ascii_letter c)"
  then have letters: "\<forall>c \<in> set (lower s). ascii_letter c"
    by (simp add: lower_def lower_char_letter)
  then have x: "map sanitize_char (lower s) = lower s"
    by (rule sanitize_letters)
  have t: "takeWhile ascii_letter (lower s) = lower s"
    using letters by (simp add: takeWhile_eq_all_conv)
  have ne: "lower s \<noteq> []" using a by (simp add: lower_def)
  have "pattern_match (sanitize_filename (clip_name n s)) = Some (str_nat n, lower s)"
    unfolding sanitize_clip_name x pattern_match_clip t using ne by simp
  then show "clip_key (sanitize_filename (clip_name n s)) = Some (n, lower s)"
    by (simp add: clip_key_def int_of_digits_str_nat lower_idem)
qed

lemma sanitize_letter_name:
  assumes "\<forall>c \<in> set s. ascii_letter c"
  shows "sanitize_filename (clip_name n s) = clip_name n s"
proof -
  from assms have "\<forall>c \<in> set (lower s). ascii_letter c"
    by (simp add: lower_def lower_char_letter)
  then have "map sanitize_char (lower s) = lower s" by (rule sanitize_letters)
  then show ?thesis unfolding sanitize_clip_name by (simp add: clip_name_def)
qed

text \<open>
  Claim C6, as stated, fails for the speaker name Zoe written with a diaeresis (its last letter is U+00EB) on
  line 1: the sanitized file name keeps U+00EB, a character outside
  \<^verbatim>\<open>[A-Za-z0-9_.-]\<close>, and the pattern of the assembler does not match the name.
\<close>

theorem C6_counterexample:
  "sanitize_filename (clip_name 1 [CHR ''Z'', CHR ''o'', CHR 0xEB])
     = [CHR ''1'', CHR ''_'', CHR ''z'', CHR ''o'', CHR 0xEB, CHR ''.'', CHR ''w'', CHR ''a'', CHR ''v'']
   \<and> \<not> spec_safe_char (CHR 0xEB)
   \<and> clip_key (sanitize_filename (clip_name 1 [CHR ''Z'', CHR ''o'', CHR 0xEB])) = None"
  by code_simp

text \<open>
  Claim C6, amended. On a name of ASCII characters the sanitizer replaces exactly the
  characters outside \<^verbatim>\<open>[A-Za-z0-9_.-]\<close> by an underscore (a non-ASCII alphanumeric is a
  word character and is kept). The assembler reads the sanitized clip name of line \<open>n\<close>
  and speaker \<open>s\<close> back as the key \<open>(n, lower s)\<close> if and only if \<open>s\<close> is a non-empty
  string of ASCII letters; for such a speaker, sanitizing leaves the clip name
  \<^verbatim>\<open>{n}_{lower s}.wav\<close> unchanged.
\<close>

theorem C6_sanitized_clip_name:
  "((\<forall>c \<in> set name. (of_char c :: nat) < 128) \<longrightarrow>
      sanitize_filename name = map (\<lambda>c. if spec_safe_char c then c else CHR ''_'') name)
   \<and> (clip_key (sanitize_filename (clip_name n s)) = Some (n, lower s)
        \<longleftrightarrow> s \<noteq> [] \<and> (\<forall>c \<in> set s. ascii_letter c))
   \<and> ((\<forall>c \<in> set s. ascii_letter c) \<longrightarrow> sanitize_filename (clip_name n s) = clip_name n s)"
proof (intro conjI impI)
  assume "\<forall>c \<in> set name. (of_char c :: nat) < 128"
  then show "sanitize_filename name = map (\<lambda>c. if spec_safe_char c then c else CHR ''_'') name"
    by (simp add: sanitize_map sanitize_char_ascii)
next
  show "clip_key (sanitize_filename (clip_name n s)) = Some (n, lower s)
        \<longleftrightarrow> s \<noteq> [] \<and> (\<forall>c \<in> set s. ascii_letter c)"
    by (rule clip_key_recognized)
next
  assume "\<forall>c \<in> set s. ascii_letter c"
  then show "sanitize_filename (clip_name n s) = clip_name n s"
    by (rule sanitize_letter_name)
qed

theorem C6_sanitized_clip_name_witness:
  "sanitize_filename ''1_host 2.wav'' = ''1_host_2.wav''
   \<and> clip_key (sanitize_filename (clip_name 12 ''Host'')) = Some (12, ''host'')
   \<and> sanitize_filename (clip_name 12 ''Host'') = ''12_host.wav''"
proof -
  have a: "\<forall>c \<in> set ''1_host 2.wav''. (of_char c :: nat) < 128" by simp
  have b: "''Host'' \<noteq> [] \<and> (\<forall>c \<in> set ''Host''. ascii_letter c)"
    by (simp add: ascii_letter_def)
  have c: "map (\<lambda>c. if spec_safe_char c then c else CHR ''_'') ''1_host 2.wav'' = ''1_host_2.wav''"
    by code_simp
  have d: "lower ''Host'' = ''host''" "clip_name 12 ''Host'' = ''12_host.wav''"
    by code_simp+
  note inst = C6_sanitized_clip_name [of "''1_host 2.wav''" 12 "''Host''"]
  from inst a have "sanitize_filename ''1_host 2.wav''
      = map (\<lambda>c. if spec_safe_char c then c else CHR ''_'') ''1_host 2.wav''"
    by blast
  then have 1: "sanitize_filename ''1_host 2.wav'' = ''1_host_2.wav''"
    by (simp only: c)
  from inst b have 2: "clip_key (sanitize_filename (clip_name 12 ''Host'')) = Some (12, lower ''Host'')"
    by blast
  from inst b have 3: "sanitize_filename (clip_name 12 ''Host'') = clip_name 12 ''Host''"
    by blast
  from 1 2 3 show ?thesis by (simp only: d simp_thms)
qed

section \<open>Assembly: loading the clips\<close>

lemma load_step_eq:
  "load_step from_wav f C =
     C\<lparr>audio_groups := (case clip_of from_wav (audio_dir C) f of
                          None \<Rightarrow> audio_groups C
                        | Some c \<Rightarrow> store_clip (audio_groups C) c),
       printed := printed C @ (case load_message from_wav (audio_dir C) f of
                                 None \<Rightarrow> [] | Some m \<Rightarrow> [m])\<rparr>"
  by (auto simp: load_step_def clip_of_def load_message_def store_clip_def split: option.splits)

lemma load_fold:
  "foldl (\<lambda>C' f. load_step from_wav f C') C xs =
     C\<lparr>audio_groups := foldl store_clip (audio_groups C) (loaded_clips from_wav (audio_dir C) xs),
       printed := printed C @ List.map_filter (load_message from_wav (audio_dir C)) xs\<rparr>"
proof (induction xs arbitrary: C)
  case Nil
  show ?case by (simp add: loaded_clips_def)
next
  case (Cons f xs)
  show ?case
    by (simp add: Cons.IH load_step_eq [of from_wav f C] loaded_clips_def split: option.splits)
qed

lemma load_audio_files_eq:
  "load_audio_files from_wav listing C =
     C\<lparr>audio_groups := foldl store_clip (audio_groups C)
                          (loaded_clips from_wav (audio_dir C) (sort listing)),
       printed := printed C @ Info_loading (audio_dir C)
                    # List.map_filter (load_message from_wav (audio_dir C)) (sort listing)\<rparr>"
  by (simp add: load_audio_files_def load_fold)

lemma load_step_unmatched: "\<not> matches f \<Longrightarrow> load_step from_wav f C = C"
  by (cases "pattern_match f") (simp_all add: load_step_def clip_key_def matches_def)

lemma load_fold_filter:
  "foldl (\<lambda>C' f. load_step from_wav f C') C (filter matches xs)
     = foldl (\<lambda>C' f. load_step from_wav f C') C xs"
  by (induction xs arbitrary: C) (auto simp: load_step_unmatched)

lemma load_audio_files_filter:
  "load_audio_files from_wav (filter matches listing) C
     = load_audio_files from_wav listing C"
  by (simp add: load_audio_files_def filter_sort [symmetric] load_fold_filter)

lemma Info_loaded_iff:
  "Info_loaded f \<in> set (List.map_filter (load_message from_wav dir) xs)
     \<longleftrightarrow> f \<in> set xs \<and> matches f \<and> from_wav (path_join dir f) \<noteq> None"
  by (induction xs) (auto simp: load_message_def clip_key_def matches_def split: option.splits)

lemma pattern_match_prefix:
  "matches f \<longleftrightarrow>
     (\<exists>ds sp rest. ds \<noteq> [] \<and> (\<forall>c \<in> set ds. re_digit c) \<and> sp \<noteq> [] \<and> (\<forall>c \<in> set sp. ascii_letter c)
        \<and> f = ds @ ''_'' @ sp @ ''.wav'' @ rest)"
proof
  assume "matches f"
  then have "pattern_match f \<noteq> None" by (simp add: matches_def)
  then obtain r2 where ds: "takeWhile re_digit f \<noteq> []"
    and r1: "dropWhile re_digit f = CHR ''_'' # r2"
    and sp: "takeWhile ascii_letter r2 \<noteq> []"
    and w: "prefix ''.wav'' (dropWhile ascii_letter r2)"
    by (auto simp: pattern_match_def Let_def split: list.splits if_splits)
  from w obtain rest where rest: "dropWhile ascii_letter r2 = ''.wav'' @ rest"
    by (auto simp: prefix_def)
  have "f = takeWhile re_digit f @ dropWhile re_digit f" by simp
  also have "dropWhile re_digit f = ''_'' @ r2" using r1 by simp
  also have "r2 = takeWhile ascii_letter r2 @ dropWhile ascii_letter r2" by simp
  also note rest
  finally have "f = takeWhile re_digit f @ ''_'' @ takeWhile ascii_letter r2 @ ''.wav'' @ rest" .
  moreover have "\<forall>c \<in> set (takeWhile re_digit f). re_digit c"
    "\<forall>c \<in> set (takeWhile ascii_letter r2). ascii_letter c"
    by (auto dest: set_takeWhileD)
  ultimately show "\<exists>ds sp rest. ds \<noteq> [] \<and> (\<forall>c \<in> set ds. re_digit c) \<and> sp \<noteq> []
      \<and> (\<forall>c \<in> set sp. ascii_letter c) \<and> f = ds @ ''_'' @ sp @ ''.wav'' @ rest"
    using ds sp by blast
next
  assume "\<exists>ds sp rest. ds \<noteq> [] \<and> (\<forall>c \<in> set ds. re_digit c) \<and> sp \<noteq> [] \<and> (\<forall>c \<in> set sp. ascii_letter c)
        \<and> f = ds @ ''_'' @ sp @ ''.wav'' @ rest"
  then obtain ds sp rest where ds: "ds \<noteq> []" "\<forall>c \<in> set ds. re_digit c"
    and sp: "sp \<noteq> []" "\<forall>c \<in> set sp. ascii_letter c"
    and f: "f = ds @ ''_'' @ sp @ ''.wav'' @ rest" by blast
  have tw: "takeWhile re_digit f = ds" and dw: "dropWhile re_digit f = CHR ''_'' # (sp @ ''.wav'' @ rest)"
    unfolding f using ds(2) by (simp_all add: takeWhile_append2 dropWhile_append2 underscore_class)
  have t1: "takeWhile ascii_letter (sp @ CHR ''.'' # CHR ''w'' # CHR ''a'' # CHR ''v'' # rest) = sp"
    and t2: "dropWhile ascii_letter (sp @ CHR ''.'' # CHR ''w'' # CHR ''a'' # CHR ''v'' # rest)
               = CHR ''.'' # CHR ''w'' # CHR ''a'' # CHR ''v'' # rest"
    using sp(2) by (simp_all add: takeWhile_append2 dropWhile_append2 underscore_class)
  show "matches f"
    unfolding matches_def pattern_match_def tw dw using ds(1) sp(1)
    by (simp add: Let_def t1 t2 del: takeWhile_append dropWhile_append)
qed

lemma group_of_store:
  "group_of (groups_store i sp a g) j
     = (if j = i then AList.update sp a (group_of g i) else group_of g j)"
  by (simp add: groups_store_def group_of_def update_conv')

lemma stored_store:
  "stored (store_clip g ((i, sp), a)) k = (if k = (i, sp) then Some a else stored g k)"
  by (cases k) (auto simp: stored_def store_clip_def group_of_store update_conv')

lemma stored_fold:
  "stored (foldl store_clip g xs) k
     = (case map_of (rev xs) k of Some a \<Rightarrow> Some a | None \<Rightarrow> stored g k)"
proof (induction xs arbitrary: g)
  case Nil
  show ?case by simp
next
  case (Cons x xs)
  obtain i sp a where x: "x = ((i, sp), a)" by (cases x) auto
  show ?case
    by (simp add: Cons.IH x stored_store map_add_def split: option.splits)
qed

lemma stored_Nil: "stored [] k = None"
  by (cases k) (simp add: stored_def group_of_def)

lemma set_update_subset: "x \<in> set (AList.update k v al) \<Longrightarrow> x = (k, v) \<or> x \<in> set al"
  by (induction al) (auto split: if_splits)

lemma groups_ok_store:
  assumes "groups_ok g"
  shows "groups_ok (store_clip g ((i, sp), a))"
proof -
  let ?d0 = "case map_of g i of None \<Rightarrow> [] | Some d \<Rightarrow> d"
  have d0: "distinct (map fst ?d0)"
  proof (cases "map_of g i")
    case None
    then show ?thesis by simp
  next
    case (Some d)
    then have "(i, d) \<in> set g" by (rule map_of_SomeD)
    with assms Some show ?thesis by (auto simp: groups_ok_def)
  qed
  have new: "distinct (map fst (AList.update sp a ?d0))"
    using d0 by (simp add: distinct_update)
  have "\<forall>p \<in> set (AList.update i (AList.update sp a ?d0) g). distinct (map fst (snd p))"
  proof
    fix p assume "p \<in> set (AList.update i (AList.update sp a ?d0) g)"
    then have "p = (i, AList.update sp a ?d0) \<or> p \<in> set g" by (rule set_update_subset)
    with new assms show "distinct (map fst (snd p))" by (auto simp: groups_ok_def)
  qed
  moreover have "distinct (map fst (AList.update i (AList.update sp a ?d0) g))"
    using assms by (simp add: distinct_update groups_ok_def)
  ultimately show ?thesis
    by (simp add: groups_ok_def store_clip_def groups_store_def)
qed

lemma groups_ok_fold: "groups_ok g \<Longrightarrow> groups_ok (foldl store_clip g xs)"
proof (induction xs arbitrary: g)
  case Nil
  then show ?case by simp
next
  case (Cons x xs)
  obtain i sp a where x: "x = ((i, sp), a)" by (cases x) auto
  from Cons.prems have "groups_ok (store_clip g x)" unfolding x by (rule groups_ok_store)
  then show ?case by (simp add: Cons.IH)
qed

lemma load_message_cases:
  "m \<in> set (List.map_filter (load_message from_wav dir) xs) \<Longrightarrow>
     \<exists>f \<in> set xs. m = Info_loaded f \<or> (m = Warning_could_not_load f \<and> from_wav (path_join dir f) = None)"
  by (induction xs) (auto simp: load_message_def split: option.splits)

lemma anchored_matches: "anchored_match f \<Longrightarrow> matches f"
  by (auto simp: anchored_match_def matches_def split: option.splits)

lemma could_not_load_iff:
  "Warning_could_not_load f \<in> set (List.map_filter (load_message from_wav dir) xs)
     \<longleftrightarrow> f \<in> set xs \<and> matches f \<and> from_wav (path_join dir f) = None"
  by (induction xs) (auto simp: load_message_def clip_key_def matches_def split: option.splits)

text \<open>
  Claim C9, as stated, fails: \<^verbatim>\<open>01_a.wav\<close> and \<^verbatim>\<open>1_a.wav\<close> have the same key, the second
  replaces the first, and nothing but the two lines for loaded files is printed.
\<close>

theorem C9_counterexample:
  "load_audio_files Some [''01_a.wav'', ''1_a.wav''] (concatenator_init ''d'')
     = \<lparr> audio_dir = ''d'', audio_groups = [(1, [(''a'', ''d/1_a.wav'')])],
         printed = [Info_loading ''d'', Info_loaded ''01_a.wav'', Info_loaded ''1_a.wav''] \<rparr>"
  by code_simp

text \<open>
  Claim C9, amended. After loading, no index occurs twice in the groups and no speaker
  twice in a group; the clip stored under a key is that of the last file, in the sorted
  order of the names, that has this key and decodes; and the overwrite is silent: every
  line printed is the line for the directory, a line for a loaded file, or a warning for
  a file that does not decode.
\<close>

theorem C9_last_write_wins_silently:
  fixes from_wav :: "string \<Rightarrow> 's list option"
  shows "distinct (map fst (audio_groups (load_audio_files from_wav listing (concatenator_init dir))))
       \<and> (\<forall>p \<in> set (audio_groups (load_audio_files from_wav listing (concatenator_init dir))).
             distinct (map fst (snd p)))
       \<and> stored (audio_groups (load_audio_files from_wav listing (concatenator_init dir))) k
           = map_of (rev (loaded_clips from_wav dir (sort listing))) k
       \<and> (\<forall>m \<in> set (printed (load_audio_files from_wav listing (concatenator_init dir))).
             m = Info_loading dir
             \<or> (\<exists>f \<in> set listing. m = Info_loaded f
                   \<or> (m = Warning_could_not_load f \<and> from_wav (path_join dir f) = None)))"
proof -
  let ?C = "load_audio_files from_wav listing (concatenator_init dir)"
  have g: "audio_groups ?C = foldl store_clip [] (loaded_clips from_wav dir (sort listing))"
    and p: "printed ?C = Info_loading dir # List.map_filter (load_message from_wav dir) (sort listing)"
    by (simp_all add: load_audio_files_eq concatenator_init_def)
  have ok: "groups_ok (audio_groups ?C)"
    unfolding g by (rule groups_ok_fold) (simp add: groups_ok_def)
  have st: "stored (audio_groups ?C) k = map_of (rev (loaded_clips from_wav dir (sort listing))) k"
    unfolding g by (simp add: stored_fold stored_Nil split: option.splits)
  have pr: "\<forall>m \<in> set (printed ?C). m = Info_loading dir
             \<or> (\<exists>f \<in> set listing. m = Info_loaded f
                   \<or> (m = Warning_could_not_load f \<and> from_wav (path_join dir f) = None))"
    unfolding p using load_message_cases [of _ from_wav dir "sort listing"] by auto
  from ok st pr show ?thesis by (simp add: groups_ok_def)
qed

theorem C9_last_write_wins_silently_witness:
  "stored (audio_groups (load_audio_files Some [''1_a.wav'', ''2_b.wav'', ''01_a.wav'']
                           (concatenator_init ''d''))) (1, ''a'') = Some ''d/1_a.wav''
   \<and> distinct (map fst (audio_groups (load_audio_files Some [''1_a.wav'', ''2_b.wav'', ''01_a.wav'']
                           (concatenator_init ''d''))))"
proof -
  have "map_of (rev (loaded_clips Some ''d'' (sort [''1_a.wav'', ''2_b.wav'', ''01_a.wav''])))
          (1, ''a'') = Some ''d/1_a.wav''"
    by code_simp
  with C9_last_write_wins_silently [of Some "[''1_a.wav'', ''2_b.wav'', ''01_a.wav'']" "''d''" "(1, ''a'')"]
  show ?thesis by simp
qed

section \<open>Assembly: the order of the track\<close>

lemma update_fresh: "k \<notin> fst ` set al \<Longrightarrow> AList.update k v al = al @ [(k, v)]"
  by (induction al) auto

lemma fold_groups:
  assumes "distinct (map fst clips)"
  shows "distinct (map fst (foldl store_clip [] clips))
     \<and> fst ` set (foldl store_clip [] clips) = clip_index ` set clips
     \<and> (\<forall>i. group_of (foldl store_clip [] clips) i
               = map clip_entry (filter (\<lambda>c. clip_index c = i) clips))"
  using assms
proof (induction clips rule: rev_induct)
  case Nil
  show ?case by (simp add: group_of_def)
next
  case (snoc x xs)
  obtain i sp a where x: "x = ((i, sp), a)" by (cases x) auto
  let ?g = "foldl store_clip [] xs"
  from snoc.prems have dx: "distinct (map fst xs)" and fresh: "(i, sp) \<notin> fst ` set xs"
    by (auto simp: x)
  from snoc.IH [OF dx] have d: "distinct (map fst ?g)"
    and k: "fst ` set ?g = clip_index ` set xs"
    and gr: "\<And>j. group_of ?g j = map clip_entry (filter (\<lambda>c. clip_index c = j) xs)"
    by auto
  have g': "foldl store_clip [] (xs @ [x]) = groups_store i sp a ?g"
    by (simp add: x store_clip_def)
  have "sp \<notin> fst ` set (group_of ?g i)"
  proof
    assume "sp \<in> fst ` set (group_of ?g i)"
    then obtain c where "c \<in> set xs" "clip_index c = i" "fst (clip_entry c) = sp"
      unfolding gr by auto
    then have "fst c = (i, sp)" by (cases c) (auto simp: clip_index_def clip_entry_def)
    with \<open>c \<in> set xs\<close> fresh show False by force
  qed
  then have upd: "AList.update sp a (group_of ?g i) = group_of ?g i @ [(sp, a)]"
    by (rule update_fresh)
  have 1: "distinct (map fst (groups_store i sp a ?g))"
    using d by (simp add: groups_store_def distinct_update)
  have 2: "fst ` set (groups_store i sp a ?g) = clip_index ` set (xs @ [x])"
    using k by (simp add: groups_store_def dom_update x clip_index_def)
  have 3: "\<forall>j. group_of (groups_store i sp a ?g) j
               = map clip_entry (filter (\<lambda>c. clip_index c = j) (xs @ [x]))"
  proof
    fix j
    have "group_of (groups_store i sp a ?g) j
            = (if j = i then group_of ?g i @ [(sp, a)] else group_of ?g j)"
      by (simp only: group_of_store upd)
    also have "\<dots> = map clip_entry (filter (\<lambda>c. clip_index c = j) (xs @ [x]))"
      by (simp add: gr x clip_index_def clip_entry_def)
    finally show "group_of (groups_store i sp a ?g) j
               = map clip_entry (filter (\<lambda>c. clip_index c = j) (xs @ [x]))" .
  qed
  from 1 2 3 show ?case unfolding g' by blast
qed

lemma concatenate_audio_track:
  "fst (concatenate_audio C)
     = concat (map (\<lambda>i. concat (map snd (group_of (audio_groups C) i)))
                   (sort (map fst (audio_groups C))))"
proof -
  have "concat (map (\<lambda>(index, speaker, audio). audio)
                 (concat (map (\<lambda>index. map (\<lambda>(speaker, audio). (index, speaker, audio)) (group_of g index)) ks)))
        = concat (map (\<lambda>i. concat (map snd (group_of g i))) ks)" for g :: "'a groups" and ks
  proof (induction ks)
    case Nil
    show ?case by simp
  next
    case (Cons k ks)
    from Cons show ?case by (simp add: comp_def case_prod_unfold)
  qed
  then show ?thesis by (simp add: concatenate_audio_def Let_def)
qed

lemma mset_by_keys:
  "distinct ks \<Longrightarrow>
     mset (concat (map (\<lambda>k. filter (\<lambda>x. f x = k) xs) ks)) = mset (filter (\<lambda>x. f x \<in> set ks) xs)"
proof (induction ks)
  case Nil
  show ?case by simp
next
  case (Cons k ks)
  then have "k \<notin> set ks" by simp
  then have "mset (filter (\<lambda>x. f x = k) xs) + mset (filter (\<lambda>x. f x \<in> set ks) xs)
               = mset (filter (\<lambda>x. f x \<in> set (k # ks)) xs)"
    by (induction xs) auto
  with Cons show ?case by simp
qed

lemma filter_by_keys:
  "distinct ks \<Longrightarrow> j \<in> set ks \<Longrightarrow>
     filter (\<lambda>x. j = f x) (concat (map (\<lambda>k. filter (\<lambda>x. f x = k) xs) ks)) = filter (\<lambda>x. j = f x) xs"
proof (induction ks)
  case Nil
  then show ?case by simp
next
  case (Cons k ks)
  have same: "filter (\<lambda>x. j = f x) (filter (\<lambda>x. f x = k) xs)
                = (if j = k then filter (\<lambda>x. j = f x) xs else [])"
  proof (cases "j = k")
    case True
    then show ?thesis by (auto intro: filter_cong)
  next
    case False
    then show ?thesis by (auto simp: filter_empty_conv)
  qed
  have none: "j \<notin> set ks \<Longrightarrow>
      filter (\<lambda>x. j = f x) (concat (map (\<lambda>k. filter (\<lambda>x. f x = k) xs) ks)) = []"
    by (auto simp: filter_empty_conv)
  have step: "filter (\<lambda>x. j = f x) (concat (map (\<lambda>k. filter (\<lambda>x. f x = k) xs) (k # ks)))
      = filter (\<lambda>x. j = f x) (filter (\<lambda>x. f x = k) xs)
        @ filter (\<lambda>x. j = f x) (concat (map (\<lambda>k. filter (\<lambda>x. f x = k) xs) ks))"
    by (simp only: list.map concat.simps filter_append)
  show ?case
  proof (cases "j = k")
    case True
    with Cons.prems have "j \<notin> set ks" by simp
    from none [OF this] True show ?thesis
      unfolding step same by simp
  next
    case False
    with Cons.prems have "j \<in> set ks" "distinct ks" by simp_all
    with Cons.IH have "filter (\<lambda>x. j = f x) (concat (map (\<lambda>k. filter (\<lambda>x. f x = k) xs) ks))
        = filter (\<lambda>x. j = f x) xs" by simp
    with False show ?thesis
      unfolding step same by simp
  qed
qed

lemma sorted_by_keys:
  "sorted ks \<Longrightarrow> sorted (map f (concat (map (\<lambda>k. filter (\<lambda>x. f x = k) xs) ks)))"
proof (induction ks)
  case Nil
  show ?case by simp
next
  case (Cons k ks)
  then have "sorted (map f (concat (map (\<lambda>k. filter (\<lambda>x. f x = k) xs) ks)))"
    and le: "\<forall>j \<in> set ks. k \<le> j" by simp_all
  moreover have "sorted (map f (filter (\<lambda>x. f x = k) xs))"
    by (induction xs) auto
  ultimately show ?case
    by (auto simp: sorted_append)
qed

lemma sort_key_by_keys:
  fixes f :: "'a \<Rightarrow> 'k :: linorder"
  assumes "distinct ks" "sorted ks" "set ks = f ` set xs"
  shows "sort_key f xs = concat (map (\<lambda>k. filter (\<lambda>x. f x = k) xs) ks)"
proof (rule properties_for_sort_key)
  let ?ys = "concat (map (\<lambda>k. filter (\<lambda>x. f x = k) xs) ks)"
  have "filter (\<lambda>x. f x \<in> set ks) xs = xs"
    using assms(3) by (simp add: filter_id_conv)
  then show "mset ?ys = mset xs"
    using mset_by_keys [OF assms(1), of f xs] by simp
  show "sorted (map f ?ys)"
    using assms(2) by (rule sorted_by_keys)
  fix k assume "k \<in> set ?ys"
  then have "f k \<in> set ks" by auto
  then show "filter (\<lambda>x. f k = f x) ?ys = filter (\<lambda>x. f k = f x) xs"
    by (rule filter_by_keys [OF assms(1)])
qed

lemma track_of_clips:
  assumes "distinct (map fst clips)"
  shows "concat (map (\<lambda>i. concat (map snd (group_of (foldl store_clip [] clips) i)))
                   (sort (map fst (foldl store_clip [] clips))))
         = concat (map snd (sort_key clip_index clips))"
proof -
  let ?g = "foldl store_clip [] clips"
  let ?ks = "sort (map fst ?g)"
  from fold_groups [OF assms] have d: "distinct (map fst ?g)"
    and k: "fst ` set ?g = clip_index ` set clips"
    and gr: "\<And>j. group_of ?g j = map clip_entry (filter (\<lambda>c. clip_index c = j) clips)"
    by auto
  have "sort_key clip_index clips = concat (map (\<lambda>k. filter (\<lambda>x. clip_index x = k) clips) ?ks)"
    by (rule sort_key_by_keys) (use d k in simp_all)
  moreover have "concat (map snd (concat (map (\<lambda>k. filter (\<lambda>x. clip_index x = k) clips) ks)))
      = concat (map (\<lambda>i. concat (map snd (map clip_entry (filter (\<lambda>c. clip_index c = i) clips)))) ks)"
    for ks
    by (induction ks) (simp_all add: clip_entry_def comp_def)
  ultimately show ?thesis by (simp add: gr)
qed

lemma clip_name_lower: "lower s = lower s' \<Longrightarrow> clip_name n s = clip_name n s'"
  by (simp add: clip_name_def)

lemma clip_key_driver_name:
  assumes "s \<noteq> []" "\<forall>c \<in> set s. ascii_letter c"
  shows "clip_key (clip_name n s) = Some (n, lower s)"
  using clip_key_recognized [of n s] sanitize_letter_name [OF assms(2), of n] assms by simp

lemma clip_key_inj_driver:
  assumes "driver_name f" "driver_name f'" "clip_key f = clip_key f'"
  shows "f = f'"
proof -
  from assms(1) obtain n s where s: "s \<noteq> []" "\<forall>c \<in> set s. ascii_letter c" "f = clip_name n s"
    by (auto simp: driver_name_def)
  from assms(2) obtain n' s' where s': "s' \<noteq> []" "\<forall>c \<in> set s'. ascii_letter c" "f' = clip_name n' s'"
    by (auto simp: driver_name_def)
  from assms(3) have "(n, lower s) = (n', lower s')"
    unfolding s(3) s'(3) clip_key_driver_name [OF s(1,2)] clip_key_driver_name [OF s'(1,2)] by simp
  then show ?thesis unfolding s(3) s'(3) by (auto intro: clip_name_lower)
qed

lemma loaded_keys:
  "map fst (loaded_clips from_wav dir xs)
     = map (\<lambda>f. the (clip_key f)) (filter (\<lambda>f. clip_of from_wav dir f \<noteq> None) xs)"
  by (induction xs) (auto simp: loaded_clips_def clip_of_def split: option.splits)

lemma driver_names_distinct_keys:
  assumes "distinct listing" "\<forall>f \<in> set listing. matches f \<longrightarrow> driver_name f"
  shows "distinct (map fst (loaded_clips from_wav dir (sort listing)))"
proof -
  let ?xs = "filter (\<lambda>f. clip_of from_wav dir f \<noteq> None) (sort listing)"
  have d: "distinct ?xs" using assms(1) by simp
  have "inj_on (\<lambda>f. the (clip_key f)) (set ?xs)"
  proof (rule inj_onI)
    fix f f' assume f: "f \<in> set ?xs" and f': "f' \<in> set ?xs"
      and e: "the (clip_key f) = the (clip_key f')"
    from f f' have k: "clip_key f \<noteq> None" "clip_key f' \<noteq> None"
      by (auto simp: clip_of_def split: option.splits)
    then have "matches f" "matches f'" by (auto simp: clip_key_def matches_def)
    with f f' assms(2) have "driver_name f" "driver_name f'" by auto
    moreover from k e have "clip_key f = clip_key f'" by auto
    ultimately show "f = f'" by (rule clip_key_inj_driver)
  qed
  with d show ?thesis by (simp add: loaded_keys distinct_map)
qed

lemma export_track:
  "fst (snd (export_final_audio from_wav listing out C))
     = fst (concatenate_audio (load_audio_files from_wav listing C))"
  by (simp add: export_final_audio_def Let_def split: prod.splits)

text \<open>
  Claim C2. When no two decodable clip files of the directory have the same key, the
  track written by the assembly is the concatenation of the decoded clips in ascending
  numeric order of their line numbers (clips of one line number in the order of their
  file names). This is so for every directory of distinct names in which the matching
  names are names the driver writes. The result of the assembly is the same for every
  listing order of the same file names.
\<close>

theorem C2_track_in_numeric_order:
  fixes from_wav :: "string \<Rightarrow> 's list option"
  shows "(distinct (map fst (loaded_clips from_wav dir (sort listing))) \<longrightarrow>
            fst (snd (export_final_audio from_wav listing out (concatenator_init dir)))
              = concat (map snd (sort_key clip_index (loaded_clips from_wav dir (sort listing)))))
       \<and> (distinct listing \<and> (\<forall>f \<in> set listing. matches f \<longrightarrow> driver_name f) \<longrightarrow>
            distinct (map fst (loaded_clips from_wav dir (sort listing))))
       \<and> (mset listing' = mset listing \<longrightarrow>
            export_final_audio from_wav listing' out C = export_final_audio from_wav listing out C)"
proof (intro conjI impI)
  assume "distinct (map fst (loaded_clips from_wav dir (sort listing)))"
  from track_of_clips [OF this]
  show "fst (snd (export_final_audio from_wav listing out (concatenator_init dir)))
              = concat (map snd (sort_key clip_index (loaded_clips from_wav dir (sort listing))))"
    by (simp add: export_track concatenate_audio_track load_audio_files_eq concatenator_init_def)
next
  assume "distinct listing \<and> (\<forall>f \<in> set listing. matches f \<longrightarrow> driver_name f)"
  then show "distinct (map fst (loaded_clips from_wav dir (sort listing)))"
    by (intro driver_names_distinct_keys) auto
next
  assume "mset listing' = mset listing"
  then have "sort listing' = sort listing"
    by (intro properties_for_sort) simp_all
  then show "export_final_audio from_wav listing' out C = export_final_audio from_wav listing out C"
    by (simp add: export_final_audio_def load_audio_files_def)
qed

theorem C2_track_in_numeric_order_witness:
  "fst (snd (export_final_audio Some [''3_a.wav'', ''10_b.wav'', ''1_a.wav'', ''2_b.wav'']
               ''final_output.wav'' (concatenator_init ''d'')))
     = ''d/1_a.wav'' @ ''d/2_b.wav'' @ ''d/3_a.wav'' @ ''d/10_b.wav''
   \<and> export_final_audio Some [''1_a.wav'', ''2_b.wav'', ''3_a.wav'', ''10_b.wav'']
        ''final_output.wav'' (concatenator_init ''d'')
     = export_final_audio Some [''3_a.wav'', ''10_b.wav'', ''1_a.wav'', ''2_b.wav'']
        ''final_output.wav'' (concatenator_init ''d'')"
proof -
  let ?l = "[''3_a.wav'', ''10_b.wav'', ''1_a.wav'', ''2_b.wav'']"
  let ?l' = "[''1_a.wav'', ''2_b.wav'', ''3_a.wav'', ''10_b.wav'']"
  have n: "clip_name 3 ''a'' = ''3_a.wav''" "clip_name 10 ''B'' = ''10_b.wav''"
    "clip_name 1 ''A'' = ''1_a.wav''" "clip_name 2 ''b'' = ''2_b.wav''"
    by code_simp+
  have l: "\<forall>c \<in> set ''a''. ascii_letter c" "\<forall>c \<in> set ''B''. ascii_letter c"
    "\<forall>c \<in> set ''A''. ascii_letter c" "\<forall>c \<in> set ''b''. ascii_letter c"
    by (simp_all add: ascii_letter_def)
  have "driver_name ''3_a.wav''" "driver_name ''10_b.wav''" "driver_name ''1_a.wav''"
    "driver_name ''2_b.wav''"
    unfolding driver_name_def
    using n(1) l(1) apply (intro exI [of _ 3] exI [of _ "''a''"]) apply simp
    using n(2) l(2) apply (intro exI [of _ 10] exI [of _ "''B''"]) apply simp
    using n(3) l(3) apply (intro exI [of _ 1] exI [of _ "''A''"]) apply simp
    using n(4) l(4) apply (intro exI [of _ 2] exI [of _ "''b''"]) apply simp
    done
  then have h: "distinct ?l \<and> (\<forall>f \<in> set ?l. matches f \<longrightarrow> driver_name f)"
    by simp
  have t: "concat (map snd (sort_key clip_index (loaded_clips Some ''d'' (sort ?l))))
             = ''d/1_a.wav'' @ ''d/2_b.wav'' @ ''d/3_a.wav'' @ ''d/10_b.wav''"
    by code_simp
  have m: "mset ?l' = mset ?l" by simp
  note inst = C2_track_in_numeric_order [of Some "''d''" ?l "''final_output.wav''" ?l'
      "concatenator_init ''d''"]
  from inst h have d: "distinct (map fst (loaded_clips Some ''d'' (sort ?l)))"
    by blast
  from inst d have "fst (snd (export_final_audio Some ?l ''final_output.wav'' (concatenator_init ''d'')))
      = concat (map snd (sort_key clip_index (loaded_clips Some ''d'' (sort ?l))))"
    by blast
  then have 1: "fst (snd (export_final_audio Some ?l ''final_output.wav'' (concatenator_init ''d'')))
      = ''d/1_a.wav'' @ ''d/2_b.wav'' @ ''d/3_a.wav'' @ ''d/10_b.wav''"
    by (simp only: t)
  from inst m have 2: "export_final_audio Some ?l' ''final_output.wav'' (concatenator_init ''d'')
      = export_final_audio Some ?l ''final_output.wav'' (concatenator_init ''d'')"
    by blast
  from 1 2 show ?thesis by blast
qed

section \<open>Assembly: which files are included\<close>

lemma set_loaded_clips:
  "set (loaded_clips from_wav dir xs) = {c. \<exists>f \<in> set xs. clip_of from_wav dir f = Some c}"
  by (induction xs) (auto simp: loaded_clips_def split: option.splits)

lemma clip_of_key: "clip_of from_wav dir f = Some (k, a) \<Longrightarrow> clip_key f = Some k"
  by (auto simp: clip_of_def split: option.splits)

lemma clip_of_decoded:
  "clip_key f = Some k \<Longrightarrow> clip_of from_wav dir f = map_option (Pair k) (from_wav (path_join dir f))"
  by (simp add: clip_of_def)

lemma lookup_own_key:
  assumes f: "f \<in> set xs" and k: "clip_key f = Some k"
    and own: "\<forall>f' \<in> set xs. f' \<noteq> f \<longrightarrow> clip_key f' \<noteq> Some k"
  shows "map_of (rev (loaded_clips from_wav dir xs)) k = from_wav (path_join dir f)"
proof (cases "from_wav (path_join dir f)")
  case None
  have "k \<notin> fst ` set (rev (loaded_clips from_wav dir xs))"
  proof
    assume "k \<in> fst ` set (rev (loaded_clips from_wav dir xs))"
    then obtain a f' where f': "f' \<in> set xs" "clip_of from_wav dir f' = Some (k, a)"
      by (auto simp: set_loaded_clips)
    then have "clip_key f' = Some k" by (auto dest: clip_of_key)
    with own f'(1) have "f' = f" by blast
    with f'(2) None k show False by (simp add: clip_of_decoded)
  qed
  then have "map_of (rev (loaded_clips from_wav dir xs)) k = None"
    by (rule map_of_eq_None_iff [THEN iffD2])
  with None show ?thesis by simp
next
  case (Some a)
  with k have "clip_of from_wav dir f = Some (k, a)"
    by (simp add: clip_of_decoded)
  with f have "(k, a) \<in> set (rev (loaded_clips from_wav dir xs))"
    unfolding set_rev set_loaded_clips by blast
  then obtain a' where a': "map_of (rev (loaded_clips from_wav dir xs)) k = Some a'"
    by (meson weak_map_of_SomeI)
  then have "(k, a') \<in> set (rev (loaded_clips from_wav dir xs))" by (rule map_of_SomeD)
  then obtain f' where f': "f' \<in> set xs" "clip_of from_wav dir f' = Some (k, a')"
    by (auto simp: set_loaded_clips)
  then have "clip_key f' = Some k" by (auto dest: clip_of_key)
  with own f'(1) have "f' = f" by blast
  with f'(2) Some k have "a' = a" by (simp add: clip_of_decoded)
  with a' Some show ?thesis by simp
qed

lemma stored_after_load:
  "stored (audio_groups (load_audio_files from_wav listing (concatenator_init dir))) k
     = map_of (rev (loaded_clips from_wav dir (sort listing))) k"
  by (simp add: load_audio_files_eq concatenator_init_def stored_fold stored_Nil split: option.splits)

lemma clip_of_unmatched: "\<not> matches f \<Longrightarrow> clip_of from_wav dir f = None"
  by (cases "pattern_match f") (simp_all add: clip_of_def clip_key_def matches_def)

lemma loaded_clips_filter:
  "loaded_clips from_wav dir (filter matches xs) = loaded_clips from_wav dir xs"
proof (induction xs)
  case Nil
  show ?case by simp
next
  case (Cons x xs)
  show ?case
  proof (cases "matches x")
    case True
    with Cons show ?thesis by (simp add: loaded_clips_def split: option.splits)
  next
    case False
    with Cons show ?thesis by (simp add: loaded_clips_def clip_of_unmatched)
  qed
qed

lemma filter_anchored:
  assumes "\<forall>f \<in> set listing. matches f \<longrightarrow> anchored_match f"
  shows "filter anchored_match listing = filter matches listing"
  using assms by (intro filter_cong) (auto dest: anchored_matches)

lemma track_after_load:
  assumes "distinct (map fst (loaded_clips from_wav dir (sort listing)))"
  shows "fst (snd (export_final_audio from_wav listing out (concatenator_init dir)))
           = concat (map snd (sort_key clip_index (loaded_clips from_wav dir (sort listing))))"
  using track_of_clips [OF assms]
  by (simp add: export_track concatenate_audio_track load_audio_files_eq concatenator_init_def)

text \<open>
  Claim C8, as stated, fails in both directions in a directory with \<^verbatim>\<open>1_a.wav\<close>,
  \<^verbatim>\<open>1_a.wav.bak\<close> and a file \<^verbatim>\<open>2_b.wav\<close> that does not decode: \<^verbatim>\<open>2_b.wav\<close> matches the
  anchored pattern and is not included; \<^verbatim>\<open>1_a.wav.bak\<close> does not match it and is loaded,
  under the key of \<^verbatim>\<open>1_a.wav\<close>, whose clip it replaces, so that the groups and the
  track hold the content of \<^verbatim>\<open>1_a.wav.bak\<close> only.
\<close>

theorem C8_counterexample:
  "load_audio_files (decode_except ''d/2_b.wav'') [''1_a.wav'', ''1_a.wav.bak'', ''2_b.wav'']
       (concatenator_init ''d'')
     = \<lparr> audio_dir = ''d'', audio_groups = [(1, [(''a'', ''d/1_a.wav.bak'')])],
         printed = [Info_loading ''d'', Info_loaded ''1_a.wav'', Info_loaded ''1_a.wav.bak'',
                    Warning_could_not_load ''2_b.wav''] \<rparr>
   \<and> fst (snd (export_final_audio (decode_except ''d/2_b.wav'')
                 [''1_a.wav'', ''1_a.wav.bak'', ''2_b.wav''] ''final_output.wav''
                 (concatenator_init ''d''))) = ''d/1_a.wav.bak''
   \<and> anchored_match ''1_a.wav'' \<and> anchored_match ''2_b.wav'' \<and> \<not> anchored_match ''1_a.wav.bak''"
  by code_simp

text \<open>
  Claim C8, amended. A file whose full name matches the anchored pattern, and whose key
  no other file of the directory has, is included if and only if it decodes: after
  loading, the entry of the groups under its key is its decoded clip when it decodes, and
  there is no entry under its key when it does not. In a directory where every name that
  matches at its start matches in full and no two decodable files have the same key, the
  exported track is the concatenation, in ascending order of the numbers, of the decoded
  clips of the files whose full name matches. A name that has no match of the pattern
  \<^verbatim>\<open>(\d+)_([a-zA-Z]+)\.wav\<close> at its start (a name that does not begin with digits, an
  underscore, ASCII letters and \<^verbatim>\<open>.wav\<close>) is ignored and prints nothing, and such names
  do not affect the result: loading, and the exported track, are the same as for the
  directory without them.
\<close>

theorem C8_full_match_included:
  fixes from_wav :: "string \<Rightarrow> 's list option"
  shows "(anchored_match f \<and> f \<in> set listing \<and> clip_key f = Some k
            \<and> (\<forall>f' \<in> set listing. f' \<noteq> f \<longrightarrow> clip_key f' \<noteq> Some k) \<longrightarrow>
            stored (audio_groups (load_audio_files from_wav listing (concatenator_init dir))) k
              = from_wav (path_join dir f))
       \<and> ((\<forall>f' \<in> set listing. matches f' \<longrightarrow> anchored_match f')
            \<and> distinct (map fst (loaded_clips from_wav dir (sort listing))) \<longrightarrow>
            fst (snd (export_final_audio from_wav listing out (concatenator_init dir)))
              = concat (map snd (sort_key clip_index
                  (loaded_clips from_wav dir (sort (filter anchored_match listing))))))
       \<and> (\<not> matches f \<longrightarrow>
            Info_loaded f \<notin> set (printed (load_audio_files from_wav listing (concatenator_init dir)))
            \<and> Warning_could_not_load f
                 \<notin> set (printed (load_audio_files from_wav listing (concatenator_init dir))))
       \<and> (matches f \<longleftrightarrow>
             (\<exists>ds sp rest. ds \<noteq> [] \<and> (\<forall>c \<in> set ds. re_digit c)
                \<and> sp \<noteq> [] \<and> (\<forall>c \<in> set sp. ascii_letter c)
                \<and> f = ds @ ''_'' @ sp @ ''.wav'' @ rest))
       \<and> load_audio_files from_wav listing C = load_audio_files from_wav (filter matches listing) C
       \<and> export_final_audio from_wav listing out C
           = export_final_audio from_wav (filter matches listing) out C"
proof (intro conjI impI)
  let ?C = "load_audio_files from_wav listing (concatenator_init dir)"
  {
    assume a: "anchored_match f \<and> f \<in> set listing \<and> clip_key f = Some k
            \<and> (\<forall>f' \<in> set listing. f' \<noteq> f \<longrightarrow> clip_key f' \<noteq> Some k)"
    then have "map_of (rev (loaded_clips from_wav dir (sort listing))) k = from_wav (path_join dir f)"
      by (intro lookup_own_key) simp_all
    then show "stored (audio_groups ?C) k = from_wav (path_join dir f)"
      by (simp only: stored_after_load)
  }
  {
    assume h: "(\<forall>f' \<in> set listing. matches f' \<longrightarrow> anchored_match f')
            \<and> distinct (map fst (loaded_clips from_wav dir (sort listing)))"
    then have "filter anchored_match listing = filter matches listing"
      by (intro filter_anchored) simp
    then have "loaded_clips from_wav dir (sort (filter anchored_match listing))
                 = loaded_clips from_wav dir (sort listing)"
      by (simp add: filter_sort [symmetric] loaded_clips_filter)
    with h show "fst (snd (export_final_audio from_wav listing out (concatenator_init dir)))
              = concat (map snd (sort_key clip_index
                  (loaded_clips from_wav dir (sort (filter anchored_match listing)))))"
      by (simp add: track_after_load)
  }
  have p: "set (printed ?C) = insert (Info_loading dir)
             (set (List.map_filter (load_message from_wav dir) (sort listing)))"
    by (simp add: load_audio_files_eq concatenator_init_def)
  {
    assume n: "\<not> matches f"
    then show "Info_loaded f \<notin> set (printed ?C)"
      unfolding p by (simp add: Info_loaded_iff)
    from n show "Warning_could_not_load f \<notin> set (printed ?C)"
      unfolding p by (simp add: could_not_load_iff)
  }
  show "matches f \<longleftrightarrow>
             (\<exists>ds sp rest. ds \<noteq> [] \<and> (\<forall>c \<in> set ds. re_digit c)
                \<and> sp \<noteq> [] \<and> (\<forall>c \<in> set sp. ascii_letter c)
                \<and> f = ds @ ''_'' @ sp @ ''.wav'' @ rest)"
    by (rule pattern_match_prefix)
  show "load_audio_files from_wav listing C = load_audio_files from_wav (filter matches listing) C"
    by (simp only: load_audio_files_filter)
  then show "export_final_audio from_wav listing out C
           = export_final_audio from_wav (filter matches listing) out C"
    by (simp only: export_final_audio_def)
qed

theorem C8_full_match_included_witness:
  "stored (audio_groups (load_audio_files (decode_except ''d/3_c.wav'')
             [''final_output.wav'', ''abc_alan.wav'', ''2_b.wav'', ''1_a.wav'', ''3_c.wav'']
             (concatenator_init ''d''))) (1, ''a'') = Some ''d/1_a.wav''
   \<and> stored (audio_groups (load_audio_files (decode_except ''d/3_c.wav'')
             [''final_output.wav'', ''abc_alan.wav'', ''2_b.wav'', ''1_a.wav'', ''3_c.wav'']
             (concatenator_init ''d''))) (3, ''c'') = None
   \<and> fst (snd (export_final_audio (decode_except ''d/3_c.wav'')
             [''final_output.wav'', ''abc_alan.wav'', ''2_b.wav'', ''1_a.wav'', ''3_c.wav'']
             ''final_output.wav'' (concatenator_init ''d''))) = ''d/1_a.wav'' @ ''d/2_b.wav''
   \<and> \<not> matches ''final_output.wav'' \<and> \<not> matches ''abc_alan.wav''
   \<and> Info_loaded ''final_output.wav''
        \<notin> set (printed (load_audio_files (decode_except ''d/3_c.wav'')
             [''final_output.wav'', ''abc_alan.wav'', ''2_b.wav'', ''1_a.wav'', ''3_c.wav'']
             (concatenator_init ''d'')))
   \<and> export_final_audio (decode_except ''d/3_c.wav'')
        [''final_output.wav'', ''abc_alan.wav'', ''2_b.wav'', ''1_a.wav'', ''3_c.wav'']
        ''final_output.wav'' (concatenator_init ''d'')
     = export_final_audio (decode_except ''d/3_c.wav'') [''2_b.wav'', ''1_a.wav'', ''3_c.wav'']
        ''final_output.wav'' (concatenator_init ''d'')"
proof -
  let ?l = "[''final_output.wav'', ''abc_alan.wav'', ''2_b.wav'', ''1_a.wav'', ''3_c.wav'']"
  let ?w = "decode_except ''d/3_c.wav''"
  let ?C = "concatenator_init ''d'' :: char concatenator"
  have a: "anchored_match ''1_a.wav''" "anchored_match ''3_c.wav''"
    by code_simp+
  have k: "clip_key ''1_a.wav'' = Some (1, ''a'')" "clip_key ''3_c.wav'' = Some (3, ''c'')"
    by code_simp+
  have o1: "\<forall>f' \<in> set ?l. f' \<noteq> ''1_a.wav'' \<longrightarrow> clip_key f' \<noteq> Some (1, ''a'')"
    by code_simp
  have o3: "\<forall>f' \<in> set ?l. f' \<noteq> ''3_c.wav'' \<longrightarrow> clip_key f' \<noteq> Some (3, ''c'')"
    by code_simp
  have h1: "\<forall>f' \<in> set ?l. matches f' \<longrightarrow> anchored_match f'"
    by code_simp
  have h2: "distinct (map fst (loaded_clips ?w ''d'' (sort ?l)))"
    by code_simp
  have t: "concat (map snd (sort_key clip_index (loaded_clips ?w ''d'' (sort (filter anchored_match ?l)))))
             = ''d/1_a.wav'' @ ''d/2_b.wav''"
    by code_simp
  have w: "?w (path_join ''d'' ''1_a.wav'') = Some ''d/1_a.wav''"
    "?w (path_join ''d'' ''3_c.wav'') = None"
    by code_simp+
  have m: "\<not> matches ''final_output.wav''" "\<not> matches ''abc_alan.wav''"
    by code_simp+
  have f: "filter matches ?l = [''2_b.wav'', ''1_a.wav'', ''3_c.wav'']"
    by code_simp
  have in1: "''1_a.wav'' \<in> set ?l" and in3: "''3_c.wav'' \<in> set ?l" by simp_all
  note i1 = C8_full_match_included [of "''1_a.wav''" ?l "(1, ''a'')" ?w "''d''"
      "''final_output.wav''" ?C]
  note i3 = C8_full_match_included [of "''3_c.wav''" ?l "(3, ''c'')" ?w "''d''"
      "''final_output.wav''" ?C]
  note i0 = C8_full_match_included [of "''final_output.wav''" ?l "(1, ''a'')" ?w "''d''"
      "''final_output.wav''" ?C]
  from i1 a(1) in1 k(1) o1
  have "stored (audio_groups (load_audio_files ?w ?l ?C)) (1, ''a'') = ?w (path_join ''d'' ''1_a.wav'')"
    by blast
  then have 1: "stored (audio_groups (load_audio_files ?w ?l ?C)) (1, ''a'') = Some ''d/1_a.wav''"
    by (simp only: w)
  from i3 a(2) in3 k(2) o3
  have "stored (audio_groups (load_audio_files ?w ?l ?C)) (3, ''c'') = ?w (path_join ''d'' ''3_c.wav'')"
    by blast
  then have 2: "stored (audio_groups (load_audio_files ?w ?l ?C)) (3, ''c'') = None"
    by (simp only: w)
  from i1 h1 h2
  have "fst (snd (export_final_audio ?w ?l ''final_output.wav'' ?C))
      = concat (map snd (sort_key clip_index (loaded_clips ?w ''d'' (sort (filter anchored_match ?l)))))"
    by blast
  then have 3: "fst (snd (export_final_audio ?w ?l ''final_output.wav'' ?C)) = ''d/1_a.wav'' @ ''d/2_b.wav''"
    by (simp only: t)
  from i0 m(1) have 4: "Info_loaded ''final_output.wav''
        \<notin> set (printed (load_audio_files ?w ?l ?C))"
    by blast
  from i1 have "export_final_audio ?w ?l ''final_output.wav'' ?C
     = export_final_audio ?w (filter matches ?l) ''final_output.wav'' ?C"
    by blast
  then have 5: "export_final_audio ?w ?l ''final_output.wav'' ?C
     = export_final_audio ?w [''2_b.wav'', ''1_a.wav'', ''3_c.wav''] ''final_output.wav'' ?C"
    by (simp only: f)
  from 1 2 3 4 5 m show ?thesis by blast
qed

end
